theory Spec2Isabelle
  imports Complex_Main "HOL-Library.Multiset" "HOL-Library.Log_Nat"
begin

section \<open>Numbers, ranges and errors\<close>

text \<open>
  The C++ type \<^verbatim>\<open>double\<close> is modelled by \<^typ>\<open>real\<close>: comparisons, minimum and maximum
  are exact on finite doubles. The N-body classes add the ends of ranges and take their
  midpoints; these sums and midpoints are taken in the reals. The kd-tree builder decides
  by the width and the midpoint of a range where it splits, and which side of a split a
  point falls on depends on how the midpoint rounds; there the width and the midpoint are
  computed in double arithmetic (\<open>round_double\<close> below).
  \<^verbatim>\<open>index_t\<close> and \<^verbatim>\<open>int\<close> are modelled by \<^typ>\<open>int\<close>; overflow of an index is not modelled.
\<close>

text \<open>The largest finite double, \<^verbatim>\<open>std::numeric_limits<double>::max()\<close> (\<^verbatim>\<open>DBL_MAX\<close>).\<close>

definition DBL_MAX :: real where
  "DBL_MAX = (2 - 1 / 2 ^ 52) * 2 ^ 1023"

text \<open>
  A read outside an array (\<^verbatim>\<open>std::vector::operator[]\<close>, \<^verbatim>\<open>CacheArray::StartWrite\<close>) and a
  failed \<^verbatim>\<open>DEBUG_ASSERT\<close> end the run; they are values of the model.
\<close>

datatype error = OutOfBounds | AssertionFailed

text \<open>
  Modelled from the spec: the range classes (\<^verbatim>\<open>core::math::Range\<close> of the N-body code and
  the per-dimension range of \<^verbatim>\<open>spbounds.h\<close>) are not among the sources. A range is a
  closed interval \<open>[lo, hi]\<close>; \<open>Init\<close> sets both ends, \<open>+\<close> adds the ends, \<open>|=\<close> is the union
  (it never shrinks), and the midpoint and the width are derived from the ends. The
  empty range that a union starts from is \<open>[DBL_MAX, -DBL_MAX]\<close>, as
  \<^verbatim>\<open>StartReaccumulate\<close> writes it.
\<close>

record Range =
  lo :: real
  hi :: real

definition Range_Init :: "real \<Rightarrow> real \<Rightarrow> Range" where
  "Range_Init l h = \<lparr>lo = l, hi = h\<rparr>"

definition Range_plus :: "Range \<Rightarrow> Range \<Rightarrow> Range" where
  "Range_plus a b = Range_Init (lo a + lo b) (hi a + hi b)"

definition Range_union :: "Range \<Rightarrow> Range \<Rightarrow> Range" where
  "Range_union a b = Range_Init (min (lo a) (lo b)) (max (hi a) (hi b))"

definition Range_union_point :: "Range \<Rightarrow> real \<Rightarrow> Range" where
  "Range_union_point a x = Range_Init (min (lo a) x) (max (hi a) x)"

definition Range_InitEmptySet :: Range where
  "Range_InitEmptySet = Range_Init DBL_MAX (- DBL_MAX)"

definition mid :: "Range \<Rightarrow> real" where
  "mid r = (lo r + hi r) / 2"

definition Range_Contains :: "Range \<Rightarrow> real \<Rightarrow> bool" where
  "Range_Contains r x = (lo r \<le> x \<and> x \<le> hi r)"

definition Range_subset :: "Range \<Rightarrow> Range \<Rightarrow> bool" where
  "Range_subset inner outer = (lo outer \<le> lo inner \<and> hi inner \<le> hi outer)"

subsection \<open>Double arithmetic\<close>

text \<open>
  An operation on doubles returns the exact result rounded to the nearest double, a tie
  going to the double with the even mantissa (IEEE 754 binary64, the default rounding).
  For \<open>x > 0\<close>, \<open>ilog2 x\<close> is the exponent \<open>e\<close> with \<open>2^e \<le> x < 2^(e+1)\<close>. The doubles
  about a real of exponent \<open>e\<close> are the multiples of \<open>2^(e - 52)\<close>, and of \<open>2^(-1074)\<close>
  when \<open>e < -1022\<close> (the subnormal doubles). A result that rounds to \<open>2^1024\<close> or beyond
  is an infinity; \<open>DBL_INF\<close> or \<open>- DBL_INF\<close> stands for it, and compares with every finite
  double as the infinity does.
\<close>

definition pow2 :: "int \<Rightarrow> real" where
  "pow2 k = (if 0 \<le> k then 2 ^ nat k else 1 / 2 ^ nat (- k))"

definition ilog2 :: "real \<Rightarrow> int" where
  "ilog2 x = (if 1 \<le> x then int (floorlog 2 (nat \<lfloor>x\<rfloor>)) - 1
              else - int (floorlog 2 (nat (\<lceil>1 / x\<rceil> - 1))))"

definition round_even :: "real \<Rightarrow> int" where
  "round_even y =
     (let f = \<lfloor>y\<rfloor> in
      if y - of_int f < 1 / 2 then f
      else if 1 / 2 < y - of_int f then f + 1
      else if even f then f else f + 1)"

definition DBL_INF :: real where
  "DBL_INF = 2 ^ 1024"

definition round_double :: "real \<Rightarrow> real" where
  "round_double x =
     (if x = 0 then 0
      else
        let e = max (ilog2 \<bar>x\<bar>) (- 1022);
            q = pow2 (e - 52);
            r = q * of_int (round_even (x / q))
        in if DBL_INF \<le> \<bar>r\<bar> then sgn x * DBL_INF else r)"

text \<open>
  Modelled from the spec: \<^verbatim>\<open>width()\<close> and \<^verbatim>\<open>mid()\<close> of the range of a bound
  (\<^verbatim>\<open>node->bound().get(d)\<close>, lines 163 and 171; \<^verbatim>\<open>spbounds.h\<close> is not among the sources) are
  the width \<open>hi - lo\<close> and the midpoint \<open>(hi + lo) / 2\<close> as expressions on doubles. Half
  of an infinity is the infinity.
\<close>

definition width_double :: "Range \<Rightarrow> real" where
  "width_double r = round_double (hi r - lo r)"

definition mid_double :: "Range \<Rightarrow> real" where
  "mid_double r =
     (let s = round_double (hi r + lo r)
      in if \<bar>s\<bar> = DBL_INF then s else round_double (s / 2))"

section \<open>The N-body triple-tree classes (nbody\_simulator\_tripletree.h)\<close>

subsection \<open>NbodySimulatorPostponed\<close>

record NbodySimulatorPostponed =
  p_negative_potential :: Range
  p_positive_potential :: Range
  p_pruned :: real
  p_used_error :: real

definition Postponed_SetZero :: NbodySimulatorPostponed where
  "Postponed_SetZero =
     \<lparr>p_negative_potential = Range_Init 0 0, p_positive_potential = Range_Init 0 0,
      p_pruned = 0, p_used_error = 0\<rparr>"

definition Postponed_Init :: "real \<Rightarrow> NbodySimulatorPostponed" where
  "Postponed_Init num_tuples =
     \<lparr>p_negative_potential = Range_Init 0 0, p_positive_potential = Range_Init 0 0,
      p_pruned = num_tuples, p_used_error = 0\<rparr>"

definition Postponed_ApplyPostponed ::
  "NbodySimulatorPostponed \<Rightarrow> NbodySimulatorPostponed \<Rightarrow> NbodySimulatorPostponed" where
  "Postponed_ApplyPostponed this other_postponed =
     \<lparr>p_negative_potential =
        Range_plus (p_negative_potential this) (p_negative_potential other_postponed),
      p_positive_potential =
        Range_plus (p_positive_potential this) (p_positive_potential other_postponed),
      p_pruned = p_pruned this + p_pruned other_postponed,
      p_used_error = p_used_error this + p_used_error other_postponed\<rparr>"

subsection \<open>NbodySimulatorDelta\<close>

record NbodySimulatorDelta =
  d_negative_potential :: "Range list"
  d_positive_potential :: "Range list"
  d_pruned :: "real list"
  d_used_error :: "real list"

text \<open>The constructor: four vectors resized to 3, then \<^verbatim>\<open>SetZero\<close>.\<close>

definition Delta_SetZero :: "NbodySimulatorDelta \<Rightarrow> NbodySimulatorDelta" where
  "Delta_SetZero d =
     \<lparr>d_negative_potential = map (\<lambda>_. Range_Init 0 0) (d_negative_potential d),
      d_positive_potential =
        map (\<lambda>(_, r). Range_Init 0 0)
          (zip (d_negative_potential d) (d_positive_potential d))
        @ drop (length (d_negative_potential d)) (d_positive_potential d),
      d_pruned =
        map (\<lambda>(_, r). 0) (zip (d_negative_potential d) (d_pruned d))
        @ drop (length (d_negative_potential d)) (d_pruned d),
      d_used_error =
        map (\<lambda>(_, r). 0) (zip (d_negative_potential d) (d_used_error d))
        @ drop (length (d_negative_potential d)) (d_used_error d)\<rparr>"

definition NbodySimulatorDelta_new :: NbodySimulatorDelta where
  "NbodySimulatorDelta_new =
     Delta_SetZero
       \<lparr>d_negative_potential = replicate 3 (Range_Init 0 0),
        d_positive_potential = replicate 3 (Range_Init 0 0),
        d_pruned = replicate 3 0, d_used_error = replicate 3 0\<rparr>"

text \<open>
  \<^verbatim>\<open>DeterministicCompute(metric, global, triple_range_distance_sq)\<close>: the body is empty
  (lines 111 to 117), so the Delta it is called on is left as it was. The metric, the
  global context and the bounds of the three nodes are template or absent types; they
  are type parameters here.
\<close>

definition DeterministicCompute ::
  "'metric \<Rightarrow> 'global \<Rightarrow> 'bounds \<Rightarrow> NbodySimulatorDelta \<Rightarrow> NbodySimulatorDelta" where
  "DeterministicCompute metric global triple_range_distance_sq this = this"

subsection \<open>NbodySimulatorResult\<close>

record NbodySimulatorResult =
  r_negative_potential :: "Range list"
  r_positive_potential :: "Range list"
  r_potential_e :: "real list"
  r_pruned :: "real list"
  r_used_error :: "real list"

definition in_range :: "'a list \<Rightarrow> int \<Rightarrow> bool" where
  "in_range xs i = (0 \<le> i \<and> i < int (length xs))"

text \<open>
  \<^verbatim>\<open>PostProcess(metric, q_index, global)\<close>: one assignment to \<^verbatim>\<open>potential_e_[q_index]\<close>,
  reading \<^verbatim>\<open>negative_potential_[q_index]\<close> and \<^verbatim>\<open>positive_potential_[q_index]\<close>. An index
  outside one of the three vectors is an error of the model.
\<close>

definition PostProcess ::
  "'metric \<Rightarrow> int \<Rightarrow> 'global \<Rightarrow> NbodySimulatorResult \<Rightarrow> error + NbodySimulatorResult" where
  "PostProcess metric q_index global this =
     (if in_range (r_negative_potential this) q_index
         \<and> in_range (r_positive_potential this) q_index
         \<and> in_range (r_potential_e this) q_index
      then Inr (this\<lparr>r_potential_e := (r_potential_e this)
                  [nat q_index := mid (r_negative_potential this ! nat q_index)
                                + mid (r_positive_potential this ! nat q_index)]\<rparr>)
      else Inl OutOfBounds)"

definition Result_Init :: "nat \<Rightarrow> NbodySimulatorResult" where
  "Result_Init num_points =
     \<lparr>r_negative_potential = replicate num_points (Range_Init 0 0),
      r_positive_potential = replicate num_points (Range_Init 0 0),
      r_potential_e = replicate num_points 0,
      r_pruned = replicate num_points 0,
      r_used_error = replicate num_points 0\<rparr>"

subsection \<open>NbodySimulatorGlobal\<close>

text \<open>
  The potential (\<^verbatim>\<open>AxilrodTeller\<close>, of \<^verbatim>\<open>axilrod_teller.h\<close>) and the squared distances of a
  point triple (\<^verbatim>\<open>core::gnp::TripleDistanceSq\<close>) are not among the sources:
  \<^verbatim>\<open>potential_.EvalUnnormOnSq\<close> is a field of the record, a function of the squared
  distances of the triple, whose type is a parameter.
\<close>

record ('table, 'dsq) NbodySimulatorGlobal =
  relative_error :: real
  probability :: real
  table :: 'table
  EvalUnnormOnSq :: "'dsq \<Rightarrow> real"

text \<open>
  \<^verbatim>\<open>ApplyContribution(range_in, postponeds)\<close>: the exact contribution of one point triple,
  written to every entry of \<^verbatim>\<open>postponeds\<close>: a negative value into the negative range, any
  other into the positive range.
\<close>

definition ApplyContribution ::
  "('table, 'dsq) NbodySimulatorGlobal \<Rightarrow> 'dsq \<Rightarrow> NbodySimulatorPostponed list
     \<Rightarrow> NbodySimulatorPostponed list" where
  "ApplyContribution global range_in postponeds =
     (let potential_value = EvalUnnormOnSq global range_in
      in map (\<lambda>p.
           (if potential_value < 0
            then p\<lparr>p_negative_potential := Range_Init potential_value potential_value,
                   p_positive_potential := Range_Init 0 0\<rparr>
            else p\<lparr>p_negative_potential := Range_Init 0 0,
                   p_positive_potential := Range_Init potential_value potential_value\<rparr>)
           \<lparr>p_pruned := 0, p_used_error := 0\<rparr>) postponeds)"

subsection \<open>NbodySimulatorSummary\<close>

record NbodySimulatorSummary =
  s_negative_potential :: Range
  s_positive_potential :: Range
  s_pruned :: real
  s_used_error :: real

text \<open>\<^verbatim>\<open>CanSummarize(global, delta, qnode, rnode, query_results)\<close>: the body is \<^verbatim>\<open>return false;\<close>.\<close>

definition CanSummarize ::
  "NbodySimulatorSummary \<Rightarrow> 'global \<Rightarrow> 'delta \<Rightarrow> 'tree \<Rightarrow> 'tree \<Rightarrow> 'result \<Rightarrow> bool" where
  "CanSummarize this global delta qnode rnode query_results = False"

definition Summary_SetZero :: NbodySimulatorSummary where
  "Summary_SetZero =
     \<lparr>s_negative_potential = Range_Init 0 0, s_positive_potential = Range_Init 0 0,
      s_pruned = 0, s_used_error = 0\<rparr>"

definition StartReaccumulate :: "NbodySimulatorSummary \<Rightarrow> NbodySimulatorSummary" where
  "StartReaccumulate this =
     \<lparr>s_negative_potential = Range_Init DBL_MAX (- DBL_MAX),
      s_positive_potential = Range_Init DBL_MAX (- DBL_MAX),
      s_pruned = DBL_MAX, s_used_error = 0\<rparr>"

text \<open>\<^verbatim>\<open>Accumulate(results, q_index)\<close>, lines 295 to 301.\<close>

definition Accumulate_result ::
  "NbodySimulatorSummary \<Rightarrow> NbodySimulatorResult \<Rightarrow> int \<Rightarrow> error + NbodySimulatorSummary" where
  "Accumulate_result this results q_index =
     (if in_range (r_negative_potential results) q_index
         \<and> in_range (r_positive_potential results) q_index
         \<and> in_range (r_pruned results) q_index
         \<and> in_range (r_used_error results) q_index
      then Inr
        \<lparr>s_negative_potential =
           Range_union (s_negative_potential this) (r_negative_potential results ! nat q_index),
         s_positive_potential =
           Range_union (s_positive_potential this) (r_positive_potential results ! nat q_index),
         s_pruned = min (s_pruned this) (r_pruned results ! nat q_index),
         s_used_error = max (s_used_error this) (r_used_error results ! nat q_index)\<rparr>
      else Inl OutOfBounds)"

text \<open>\<^verbatim>\<open>Accumulate(summary_in)\<close>, lines 303 to 308.\<close>

definition Accumulate_summary ::
  "NbodySimulatorSummary \<Rightarrow> NbodySimulatorSummary \<Rightarrow> NbodySimulatorSummary" where
  "Accumulate_summary this summary_in =
     \<lparr>s_negative_potential =
        Range_union (s_negative_potential this) (s_negative_potential summary_in),
      s_positive_potential =
        Range_union (s_positive_potential this) (s_positive_potential summary_in),
      s_pruned = min (s_pruned this) (s_pruned summary_in),
      s_used_error = max (s_used_error this) (s_used_error summary_in)\<rparr>"

text \<open>
  \<^verbatim>\<open>Accumulate(summary_in, postponed_in)\<close>, lines 310 to 323. The negative range is
  updated with \<^verbatim>\<open>|=\<close> (line 314), the positive range with \<^verbatim>\<open>=\<close> (line 316).
\<close>

definition Accumulate ::
  "NbodySimulatorSummary \<Rightarrow> NbodySimulatorSummary \<Rightarrow> NbodySimulatorPostponed
     \<Rightarrow> NbodySimulatorSummary" where
  "Accumulate this summary_in postponed_in =
     \<lparr>s_negative_potential =
        Range_union (s_negative_potential this)
          (Range_plus (s_negative_potential summary_in) (p_negative_potential postponed_in)),
      s_positive_potential =
        Range_plus (s_positive_potential summary_in) (p_positive_potential postponed_in),
      s_pruned = min (s_pruned this) (s_pruned summary_in + p_pruned postponed_in),
      s_used_error =
        max (s_used_error this) (s_used_error summary_in + p_used_error postponed_in)\<rparr>"

definition Summary_ApplyPostponed ::
  "NbodySimulatorSummary \<Rightarrow> NbodySimulatorPostponed \<Rightarrow> NbodySimulatorSummary" where
  "Summary_ApplyPostponed this postponed_in =
     \<lparr>s_negative_potential =
        Range_plus (s_negative_potential this) (p_negative_potential postponed_in),
      s_positive_potential =
        Range_plus (s_positive_potential this) (p_positive_potential postponed_in),
      s_pruned = s_pruned this + p_pruned postponed_in,
      s_used_error = s_used_error this + p_used_error postponed_in\<rparr>"

section \<open>The kd-tree builder (kdtree.h)\<close>

text \<open>
  \<^verbatim>\<open>KdTreeMidpointBuilder\<close> holds the point array, the array of per-point payloads, the
  node array and two numbers, \<^verbatim>\<open>leaf_size_\<close> and \<^verbatim>\<open>dim_\<close>. The arrays (\<^verbatim>\<open>CacheArray\<close>) are
  lists indexed from 0, a node is named by its index in the node array, and the allocator
  appends a node. The private members \<^verbatim>\<open>Partition_\<close>, \<^verbatim>\<open>FindBoundingBox_\<close>,
  \<^verbatim>\<open>Build_(node_i)\<close> and \<^verbatim>\<open>Build()\<close> are \<open>Partition\<close>, \<open>FindBoundingBox\<close>, \<open>Build_node\<close>
  and \<open>Build\<close> here, and the parameter \<^verbatim>\<open>count\<close> is written \<open>count'\<close>. The statistic of a
  node (\<^verbatim>\<open>stat()\<close>, a template parameter that is initialised, accumulated and
  post-processed) reads points and bounds and writes neither them nor the ranges or the
  children of a node; it is left out.
\<close>

subsection \<open>Points, bounds and nodes\<close>

type_synonym Vector = "real list"

type_synonym Bound = "Range list"

text \<open>A checked read: \<^verbatim>\<open>Vector::get\<close>, \<^verbatim>\<open>Bound::get\<close> and \<^verbatim>\<open>nodes_.StartWrite\<close> at an index.\<close>

definition get :: "'a list \<Rightarrow> nat \<Rightarrow> error + 'a" where
  "get xs i = (if i < length xs then Inr (xs ! i) else Inl OutOfBounds)"

text \<open>\<^verbatim>\<open>points_.StartWrite(i)\<close> at a signed index.\<close>

definition StartWrite :: "'a list \<Rightarrow> int \<Rightarrow> error + 'a" where
  "StartWrite xs i = (if in_range xs i then Inr (xs ! nat i) else Inl OutOfBounds)"

text \<open>
  Modelled from the spec: the bound class of \<^verbatim>\<open>spbounds.h\<close> is not among the sources. A
  Bound is one range per dimension; \<^verbatim>\<open>Init(dim)\<close> makes every range empty, and
  \<^verbatim>\<open>bound |= vector\<close> widens each range by the coordinate of the vector in its dimension
  (the vectors of a point set have one coordinate per dimension).
\<close>

definition Bound_Init :: "nat \<Rightarrow> Bound" where
  "Bound_Init dimension = replicate dimension Range_InitEmptySet"

definition Bound_union_vector :: "Bound \<Rightarrow> Vector \<Rightarrow> Bound" where
  "Bound_union_vector b v = map (\<lambda>(r, x). Range_union_point r x) (zip b v)"

definition Bound_Contains :: "Bound \<Rightarrow> Vector \<Rightarrow> bool" where
  "Bound_Contains b v = list_all2 Range_Contains b v"

text \<open>\<^verbatim>\<open>BIG_BAD_NUMBER\<close> of \<^verbatim>\<open>base/common.h\<close>, the index that names no dimension.\<close>

definition BIG_BAD_NUMBER :: nat where
  "BIG_BAD_NUMBER = 2000000000"

text \<open>
  Modelled from the spec: the node class of \<^verbatim>\<open>spnode.h\<close> is not among the sources. A node
  has a bound, the range \<open>(begin, count)\<close> of its points and two optional children;
  \<^verbatim>\<open>Init(begin, count)\<close> sets the range, \<^verbatim>\<open>set_child(i, c)\<close> sets child \<open>i\<close>, and
  \<^verbatim>\<open>set_leaf()\<close> marks the node a leaf. A node fresh from the allocator has no children and
  no leaf mark.
\<close>

record Node =
  n_bound :: Bound
  n_begin :: int
  n_count :: int
  n_child0 :: "nat option"
  n_child1 :: "nat option"
  n_leaf :: bool

definition n_end :: "Node \<Rightarrow> int" where
  "n_end node = n_begin node + n_count node"

definition Node_new :: Node where
  "Node_new = \<lparr>n_bound = [], n_begin = int BIG_BAD_NUMBER, n_count = int BIG_BAD_NUMBER,
     n_child0 = None, n_child1 = None, n_leaf = False\<rparr>"

definition Node_Init :: "int \<Rightarrow> int \<Rightarrow> Node \<Rightarrow> Node" where
  "Node_Init begin_in count_in node = node\<lparr>n_begin := begin_in, n_count := count_in\<rparr>"

definition set_child :: "nat \<Rightarrow> nat \<Rightarrow> Node \<Rightarrow> Node" where
  "set_child i child node =
     (if i = 0 then node\<lparr>n_child0 := Some child\<rparr> else node\<lparr>n_child1 := Some child\<rparr>)"

definition set_leaf :: "Node \<Rightarrow> Node" where
  "set_leaf node = node\<lparr>n_leaf := True\<rparr>"

record 'info KdTreeMidpointBuilder =
  points :: "Vector list"
  point_infos :: "'info list"
  nodes :: "Node list"
  leaf_size :: int
  dim :: nat

subsection \<open>FindBoundingBox\<close>

text \<open>Lines 79 to 87: the bound is widened by the points \<open>first, ..., first + count - 1\<close>.\<close>

fun FindBoundingBox_loop :: "Vector list \<Rightarrow> int \<Rightarrow> nat \<Rightarrow> Bound \<Rightarrow> error + Bound" where
  "FindBoundingBox_loop pts i 0 bound = Inr bound"
| "FindBoundingBox_loop pts i (Suc n) bound =
     (case StartWrite pts i of
        Inl e \<Rightarrow> Inl e
      | Inr v \<Rightarrow> FindBoundingBox_loop pts (i + 1) n (Bound_union_vector bound v))"

definition FindBoundingBox :: "Vector list \<Rightarrow> int \<Rightarrow> int \<Rightarrow> Bound \<Rightarrow> error + Bound" where
  "FindBoundingBox pts first count' bound = FindBoundingBox_loop pts first (nat count') bound"

subsection \<open>Partition\<close>

text \<open>
  The left scan, lines 105 to 112: the point at \<open>left\<close> is read before the cursors are
  compared; the scan stops at a point at or above the split value or when the cursors
  have crossed, and otherwise widens the left bound and advances.
\<close>

function left_scan ::
  "nat \<Rightarrow> real \<Rightarrow> Vector list \<Rightarrow> int \<Rightarrow> int \<Rightarrow> Bound \<Rightarrow> error + int \<times> Bound" where
  "left_scan split_dim splitvalue pts left right left_bound =
     (case StartWrite pts left of
        Inl e \<Rightarrow> Inl e
      | Inr left_v \<Rightarrow>
          (case get left_v split_dim of
             Inl e \<Rightarrow> Inl e
           | Inr x \<Rightarrow>
               if x \<ge> splitvalue \<or> left > right then Inr (left, left_bound)
               else left_scan split_dim splitvalue pts (left + 1) right
                      (Bound_union_vector left_bound left_v)))"
  by pat_completeness auto
termination
  by (relation "measure (\<lambda>(split_dim, splitvalue, pts, left, right, left_bound).
        nat (right + 1 - left))") auto

text \<open>
  The right scan, lines 114 to 121. The source text is
  \<^verbatim>\<open>while (1)\<close> / \<^verbatim>\<open>right_v = points_.StartWrite(right);\<close> /
  \<^verbatim>\<open>if (right_v->get(split_dim) < splitvalue || unlikely(left > right)) { break; }\<close> /
  \<^verbatim>\<open>*right_bound |= *right_v;\<close> / \<^verbatim>\<open>right--;\<close> / \<^verbatim>\<open>}\<close>:
  line 114 opens no block, and line 121 closes one. Two readings are modelled.

  \<^item> \<open>AsIndented\<close>: lines 115 to 120 are the body of the loop, as they are indented and as
    the brace of line 121 closes them; the scan mirrors the left scan (\<open>right_scan\<close>).
  \<^item> \<open>AsWritten\<close>: the body of \<^verbatim>\<open>while (1)\<close> is the one statement of line 115, so the loop
    reads the point at \<open>right\<close> again and again and has no exit
    (\<open>right_scan_as_written\<close>); nothing after it is reached.
\<close>

datatype reading = AsWritten | AsIndented

function right_scan ::
  "nat \<Rightarrow> real \<Rightarrow> Vector list \<Rightarrow> int \<Rightarrow> int \<Rightarrow> Bound \<Rightarrow> error + int \<times> Bound" where
  "right_scan split_dim splitvalue pts left right right_bound =
     (case StartWrite pts right of
        Inl e \<Rightarrow> Inl e
      | Inr right_v \<Rightarrow>
          (case get right_v split_dim of
             Inl e \<Rightarrow> Inl e
           | Inr x \<Rightarrow>
               if x < splitvalue \<or> left > right then Inr (right, right_bound)
               else right_scan split_dim splitvalue pts left (right - 1)
                      (Bound_union_vector right_bound right_v)))"
  by pat_completeness auto
termination
  by (relation "measure (\<lambda>(split_dim, splitvalue, pts, left, right, right_bound).
        nat (right + 1 - left))") auto

declare left_scan.simps [simp del] right_scan.simps [simp del]

partial_function (option) right_scan_as_written ::
  "Vector list \<Rightarrow> int \<Rightarrow> (error + 'a) option" where
  "right_scan_as_written pts right =
     (case StartWrite pts right of
        Inl e \<Rightarrow> Some (Inl e)
      | Inr right_v \<Rightarrow> right_scan_as_written pts right)"

text \<open>\<^verbatim>\<open>SwapValues\<close> of two points and \<^verbatim>\<open>point_infos_.Swap(left, right)\<close>.\<close>

definition swap_at :: "'a list \<Rightarrow> int \<Rightarrow> int \<Rightarrow> 'a list" where
  "swap_at xs i j = xs[nat i := xs ! nat j, nat j := xs ! nat i]"

lemma left_scan_ge:
  "left_scan split_dim splitvalue pts left right lb = Inr (left', lb') \<Longrightarrow> left \<le> left'"
proof (induction split_dim splitvalue pts left right lb rule: left_scan.induct)
  case (1 split_dim splitvalue pts left right left_bound)
  from "1.prems" show ?case
    by (subst (asm) left_scan.simps)
       (auto split: sum.splits if_splits dest!: "1.IH")
qed

lemma right_scan_le:
  "right_scan split_dim splitvalue pts left right rb = Inr (right', rb') \<Longrightarrow> right' \<le> right"
proof (induction split_dim splitvalue pts left right rb rule: right_scan.induct)
  case (1 split_dim splitvalue pts left right right_bound)
  from "1.prems" show ?case
    by (subst (asm) right_scan.simps)
       (auto split: sum.splits if_splits dest!: "1.IH")
qed

text \<open>
  The body of \<^verbatim>\<open>for (;;)\<close>, lines 101 to 142, in the reading \<open>AsIndented\<close>: the two
  scans, the exit when the cursors have crossed, the swap of the two points and of their
  payloads, the widening of both bounds by the swapped points, and \<^verbatim>\<open>right--\<close>. The
  assertion of line 140 stands behind the exit test of line 123 and cannot fail.
\<close>

function Partition_loop ::
  "nat \<Rightarrow> real \<Rightarrow> Vector list \<Rightarrow> 'info list \<Rightarrow> int \<Rightarrow> int \<Rightarrow> Bound \<Rightarrow> Bound
     \<Rightarrow> error + Vector list \<times> 'info list \<times> int \<times> int \<times> Bound \<times> Bound" where
  "Partition_loop split_dim splitvalue pts infos left right left_bound right_bound =
     (case left_scan split_dim splitvalue pts left right left_bound of
        Inl e \<Rightarrow> Inl e
      | Inr (left', left_bound') \<Rightarrow>
          (case right_scan split_dim splitvalue pts left' right right_bound of
             Inl e \<Rightarrow> Inl e
           | Inr (right', right_bound') \<Rightarrow>
               if left' > right' then Inr (pts, infos, left', right', left_bound', right_bound')
               else if \<not> (in_range infos left' \<and> in_range infos right') then Inl OutOfBounds
               else
                 let pts' = swap_at pts left' right';
                     infos' = swap_at infos left' right';
                     left_bound'' = Bound_union_vector left_bound' (pts' ! nat left');
                     right_bound'' = Bound_union_vector right_bound' (pts' ! nat right')
                 in Partition_loop split_dim splitvalue pts' infos' left' (right' - 1)
                      left_bound'' right_bound''))"
  by pat_completeness auto
termination
proof (relation "measure (\<lambda>(split_dim, splitvalue, pts, infos, left, right, lb, rb).
        nat (right + 1 - left))", goal_cases)
  case 1
  show ?case by simp
next
  case (2 split_dim splitvalue pts infos left right left_bound right_bound x2 left' lb' x2a right' rb' pts' infos' lb'' rb'')
  then have "left \<le> left'" "right' \<le> right"
    by (auto dest: left_scan_ge right_scan_le)
  with 2 show ?case by simp
qed

declare Partition_loop.simps [simp del]

text \<open>
  \<^verbatim>\<open>Partition_(split_dim, splitvalue, first, count, left_bound, right_bound)\<close>, lines 89 to
  147. The result is \<open>None\<close> when the call does not return, an error, or the returned
  index with the arrays and the two bounds as the call leaves them. In the reading
  \<open>AsIndented\<close> the loop is followed by the assertion of line 144.
\<close>

definition Partition ::
  "reading \<Rightarrow> nat \<Rightarrow> real \<Rightarrow> int \<Rightarrow> int \<Rightarrow> Vector list \<Rightarrow> 'info list \<Rightarrow> Bound \<Rightarrow> Bound
     \<Rightarrow> (error + int \<times> Vector list \<times> 'info list \<times> Bound \<times> Bound) option" where
  "Partition rd split_dim splitvalue first count' pts infos left_bound right_bound =
     (let left = first; right = first + count' - 1 in
      case rd of
        AsIndented \<Rightarrow>
          Some (case Partition_loop split_dim splitvalue pts infos left right
                       left_bound right_bound of
                  Inl e \<Rightarrow> Inl e
                | Inr (pts', infos', left', right', left_bound', right_bound') \<Rightarrow>
                    if left' = right' + 1
                    then Inr (left', pts', infos', left_bound', right_bound')
                    else Inl AssertionFailed)
      | AsWritten \<Rightarrow>
          (case left_scan split_dim splitvalue pts left right left_bound of
             Inl e \<Rightarrow> Some (Inl e)
           | Inr (left', left_bound') \<Rightarrow> right_scan_as_written pts right))"

subsection \<open>Build\<close>

text \<open>The loop of lines 162 to 169 that finds the widest dimension of a bound.\<close>

fun widest_loop :: "Bound \<Rightarrow> nat list \<Rightarrow> real \<times> nat \<Rightarrow> error + real \<times> nat" where
  "widest_loop b [] acc = Inr acc"
| "widest_loop b (d # ds) (max_width, split_dim) =
     (case get b d of
        Inl e \<Rightarrow> Inl e
      | Inr r \<Rightarrow>
          widest_loop b ds
            (if width_double r > max_width then (width_double r, d)
             else (max_width, split_dim)))"

definition Alloc :: "'info KdTreeMidpointBuilder \<Rightarrow> nat \<times> 'info KdTreeMidpointBuilder" where
  "Alloc s = (length (nodes s), s\<lparr>nodes := nodes s @ [Node_new]\<rparr>)"

text \<open>
  Lines 218 to 225, \<^verbatim>\<open>if (leaf) { node->set_leaf(); ... }\<close>, without the statistic.
\<close>

definition finish_node ::
  "bool \<Rightarrow> nat \<Rightarrow> 'info KdTreeMidpointBuilder \<Rightarrow> 'info KdTreeMidpointBuilder" where
  "finish_node leaf node_i s =
     (if leaf then s\<lparr>nodes := (nodes s)[node_i := set_leaf (nodes s ! node_i)]\<rparr> else s)"

text \<open>Sequencing of calls that may fail or not return.\<close>

definition bind_result ::
  "(error + 'a) option \<Rightarrow> ('a \<Rightarrow> (error + 'b) option) \<Rightarrow> (error + 'b) option" where
  "bind_result m f =
     Option.bind m (\<lambda>r. case r of Inl e \<Rightarrow> Some (Inl e) | Inr x \<Rightarrow> f x)"

lemma bind_result_mono [partial_function_mono]:
  assumes "mono_option B" and "\<And>y. mono_option (\<lambda>f. C y f)"
  shows "mono_option (\<lambda>f. bind_result (B f) (\<lambda>y. C y f))"
  unfolding bind_result_def
proof (rule bind_mono [OF assms(1)])
  show "mono_option (\<lambda>f. case y of Inl e \<Rightarrow> Some (Inl e) | Inr x \<Rightarrow> C x f)" for y
    by (cases y) (simp_all add: assms(2) option.const_mono)
qed

text \<open>
  \<^verbatim>\<open>Build_(node_i)\<close>, lines 150 to 228. The local \<^verbatim>\<open>bool leaf;\<close> of line 153 has no
  initialiser and its only assignment is \<^verbatim>\<open>leaf = false\<close> (line 214, on the split path),
  so on every other path the test of line 218 reads an indeterminate value:
  \<open>leaf_garbage node_i\<close> is the value it holds in the call for node \<open>node_i\<close>. A failed
  \<^verbatim>\<open>DEBUG_ASSERT\<close> (line 199) ends the build. The result is \<open>None\<close> when the call does
  not return.
\<close>

partial_function (option) Build_node ::
  "reading \<Rightarrow> (nat \<Rightarrow> bool) \<Rightarrow> 'info KdTreeMidpointBuilder \<Rightarrow> nat
     \<Rightarrow> (error + 'info KdTreeMidpointBuilder) option" where
  "Build_node rd leaf_garbage s node_i =
     (case get (nodes s) node_i of
        Inl e \<Rightarrow> Some (Inl e)
      | Inr node \<Rightarrow>
          if n_count node > leaf_size s then
            (case widest_loop (n_bound node) [0..<dim s] (- 1, BIG_BAD_NUMBER) of
               Inl e \<Rightarrow> Some (Inl e)
             | Inr (max_width, split_dim) \<Rightarrow>
                 (case get (n_bound node) split_dim of
                    Inl e \<Rightarrow> Some (Inl e)
                  | Inr r \<Rightarrow>
                      let split_val = mid_double r in
                      if max_width \<noteq> 0 then
                        (let (left_i, s_l) = Alloc s;
                             (right_i, s_r) = Alloc s_l
                         in bind_result
                              (Partition rd split_dim split_val (n_begin node) (n_count node)
                                 (points s_r) (point_infos s_r)
                                 (Bound_Init (dim s)) (Bound_Init (dim s)))
                              (\<lambda>(split_col, pts', infos', left_bound, right_bound).
                                let left = Node_Init (n_begin node) (split_col - n_begin node)
                                             (Node_new\<lparr>n_bound := left_bound\<rparr>);
                                    right = Node_Init split_col (n_end node - split_col)
                                             (Node_new\<lparr>n_bound := right_bound\<rparr>);
                                    s1 = s_r\<lparr>points := pts', point_infos := infos',
                                             nodes := (nodes s_r)[left_i := left, right_i := right]\<rparr>
                                in if \<not> (n_count left \<noteq> 0 \<and> n_count right \<noteq> 0)
                                   then Some (Inl AssertionFailed)
                                   else
                                     bind_result (Build_node rd leaf_garbage s1 left_i) (\<lambda>s2.
                                     bind_result (Build_node rd leaf_garbage s2 right_i) (\<lambda>s3.
                                       Some (Inr (s3\<lparr>nodes := (nodes s3)
                                         [node_i := set_child 1 right_i
                                            (set_child 0 left_i (nodes s3 ! node_i))]\<rparr>))))))
                      else Some (Inr (finish_node (leaf_garbage node_i) node_i s))))
          else Some (Inr (finish_node (leaf_garbage node_i) node_i s)))"

text \<open>
  \<^verbatim>\<open>InitBuild\<close> and \<^verbatim>\<open>Build()\<close>, lines 42 to 66 and 231 to 241: the dimension is the length of
  the first point, the leaf size is the parameter \<^verbatim>\<open>leaf_size\<close>, the root covers all
  points, and its bound is their bounding box.
\<close>

definition Build ::
  "reading \<Rightarrow> (nat \<Rightarrow> bool) \<Rightarrow> int \<Rightarrow> Vector list \<Rightarrow> 'info list
     \<Rightarrow> (error + 'info KdTreeMidpointBuilder) option" where
  "Build rd leaf_garbage leaf_size_in points_in point_infos_in =
     (case StartWrite points_in 0 of
        Inl e \<Rightarrow> Some (Inl e)
      | Inr first_point \<Rightarrow>
          let dim_in = length first_point;
              node = Node_Init 0 (int (length points_in)) Node_new
          in (case FindBoundingBox points_in 0 (int (length points_in)) (Bound_Init dim_in) of
                Inl e \<Rightarrow> Some (Inl e)
              | Inr b \<Rightarrow>
                  Build_node rd leaf_garbage
                    \<lparr>points = points_in, point_infos = point_infos_in,
                     nodes = [node\<lparr>n_bound := b\<rparr>], leaf_size = leaf_size_in,
                     dim = dim_in\<rparr> 0))"

section \<open>Properties of the kd-tree builder\<close>

subsection \<open>Rounding\<close>

text \<open>
  Rounding keeps the sign; \<open>ilog2 x\<close> is the exponent of \<open>x > 0\<close>; and a real \<open>m * 2^k\<close>
  with \<open>|m| < 2^53\<close> and \<open>-1074 \<le> k \<le> 971\<close> is a double: rounding returns it.
\<close>

lemma pow2_powi: "pow2 k = 2 powi k"
  by (simp add: pow2_def power_int_def inverse_eq_divide power_one_over)

lemma round_double_0 [simp]: "round_double 0 = 0"
  by (simp add: round_double_def)

lemma round_even_of_int [simp]: "round_even (of_int n) = n"
  by (simp add: round_even_def)

lemma round_even_nonneg: "0 \<le> y \<Longrightarrow> 0 \<le> round_even y"
  by (simp add: round_even_def Let_def)

lemma round_double_nonneg:
  assumes "0 \<le> x"
  shows "0 \<le> round_double x"
proof (cases "x = 0")
  case True
  then show ?thesis by simp
next
  case False
  let ?q = "pow2 (max (ilog2 \<bar>x\<bar>) (- 1022) - 52)"
  have q: "0 < ?q" by (simp add: pow2_powi)
  then have "0 \<le> x / ?q" using assms by simp
  then have "0 \<le> ?q * of_int (round_even (x / ?q))"
    using q round_even_nonneg by (simp add: zero_le_mult_iff)
  moreover have "0 \<le> sgn x * DBL_INF" using assms by (simp add: DBL_INF_def sgn_if)
  ultimately show ?thesis using False by (simp add: round_double_def Let_def)
qed

lemma ilog2_lower:
  assumes "0 < x"
  shows "2 powi (ilog2 x) \<le> x"
proof (cases "1 \<le> x")
  case True
  let ?n = "nat \<lfloor>x\<rfloor>"
  have n: "0 < ?n" using True by simp
  from floorlog_bounds [OF n, of 2] have b: "2 ^ (floorlog 2 ?n - 1) \<le> ?n" by simp
  have fl: "0 < floorlog 2 ?n" using n floorlog_eq_zero_iff [of 2 ?n] by simp
  have "real ?n \<le> x" using True by (simp add: of_nat_floor)
  moreover have "(2::real) ^ (floorlog 2 ?n - 1) \<le> real ?n"
    using b by (metis of_nat_le_iff of_nat_numeral of_nat_power)
  ultimately have "(2::real) ^ (floorlog 2 ?n - 1) \<le> x" by (rule order_trans [rotated])
  moreover have "ilog2 x = int (floorlog 2 ?n - 1)"
    using True fl by (simp add: ilog2_def)
  ultimately show ?thesis by (simp only: power_int_of_nat)
next
  case False
  let ?c = "\<lceil>1 / x\<rceil>"
  let ?n = "nat (?c - 1)"
  have y: "1 < 1 / x" using False assms by simp
  then have c: "2 \<le> ?c" by (simp add: le_ceiling_iff)
  then have n: "0 < ?n" by simp
  from floorlog_bounds [OF n, of 2] have "?n < 2 ^ floorlog 2 ?n" by simp
  then have "int ?n < 2 ^ floorlog 2 ?n"
    by (metis of_nat_less_iff of_nat_numeral of_nat_power)
  moreover from c have "0 \<le> ?c - 1" by linarith
  then have "int ?n = ?c - 1" by (rule nat_0_le)
  ultimately have "?c \<le> 2 ^ floorlog 2 ?n" by linarith
  then have "real_of_int ?c \<le> 2 ^ floorlog 2 ?n"
    by (metis of_int_le_iff of_int_numeral of_int_power)
  then have "1 / x \<le> 2 ^ floorlog 2 ?n" using le_of_int_ceiling [of "1 / x"] by linarith
  then have A: "1 / 2 ^ floorlog 2 ?n \<le> x"
    using assms by (simp add: field_simps)
  have B: "ilog2 x = - int (floorlog 2 ?n)" using False by (simp add: ilog2_def)
  have C: "(2::real) powi (- int (floorlog 2 ?n)) = 1 / 2 ^ floorlog 2 ?n"
    by (simp add: power_int_minus inverse_eq_divide)
  show ?thesis unfolding B C by (rule A)
qed

lemma ilog2_upper:
  assumes "0 < x"
  shows "x < 2 powi (ilog2 x + 1)"
proof (cases "1 \<le> x")
  case True
  let ?n = "nat \<lfloor>x\<rfloor>"
  have n: "0 < ?n" using True by simp
  from floorlog_bounds [OF n, of 2] have "?n < 2 ^ floorlog 2 ?n" by simp
  then have "Suc ?n \<le> 2 ^ floorlog 2 ?n" by (rule Suc_leI)
  then have "real (Suc ?n) \<le> 2 ^ floorlog 2 ?n"
    by (metis of_nat_le_iff of_nat_numeral of_nat_power)
  moreover have "x < real (Suc ?n)" using True by (simp add: of_nat_floor) linarith
  ultimately have A: "x < 2 ^ floorlog 2 ?n" by linarith
  have "ilog2 x + 1 = int (floorlog 2 ?n)" using True by (simp add: ilog2_def)
  then show ?thesis using A by (simp only: power_int_of_nat)
next
  case False
  let ?c = "\<lceil>1 / x\<rceil>"
  let ?n = "nat (?c - 1)"
  let ?k = "floorlog 2 ?n"
  have y: "1 < 1 / x" using False assms by simp
  then have c: "2 \<le> ?c" by (simp add: le_ceiling_iff)
  then have n: "0 < ?n" by simp
  then have k: "0 < ?k" using floorlog_eq_zero_iff [of 2 ?n] by simp
  from floorlog_bounds [OF n, of 2] have "2 ^ (?k - 1) \<le> ?n" by simp
  then have "(2::real) ^ (?k - 1) \<le> real ?n"
    by (metis of_nat_le_iff of_nat_numeral of_nat_power)
  moreover from c have "0 \<le> ?c - 1" by linarith
  then have "real ?n = of_int ?c - 1" by (simp add: of_nat_nat)
  moreover have "of_int ?c - 1 < 1 / x" using ceiling_correct [of "1 / x"] by linarith
  ultimately have "(2::real) ^ (?k - 1) < 1 / x" by linarith
  then have A: "x < 1 / 2 ^ (?k - 1)" using assms by (simp add: field_simps)
  have "ilog2 x + 1 = - int (?k - 1)" using False k by (simp add: ilog2_def)
  moreover have "(2::real) powi (- int (?k - 1)) = 1 / 2 ^ (?k - 1)"
    by (simp add: power_int_minus inverse_eq_divide)
  ultimately show ?thesis using A by simp
qed

lemma round_double_exact:
  assumes "\<bar>m\<bar> < 2 ^ 53" and "- 1074 \<le> k" and "k \<le> 971"
  shows "round_double (of_int m * 2 powi k) = of_int m * 2 powi k"
proof (cases "m = 0")
  case True
  then show ?thesis by simp
next
  case False
  let ?x = "of_int m * (2::real) powi k"
  let ?e = "max (ilog2 \<bar>?x\<bar>) (- 1022)"
  have p: "0 < (2::real) powi j" for j by (simp add: zero_less_power_int)
  have x0: "?x \<noteq> 0" using False p [of k] by simp
  have ax: "\<bar>?x\<bar> = of_int \<bar>m\<bar> * 2 powi k" using p [of k] by (simp add: abs_mult)
  have "real_of_int \<bar>m\<bar> < 2 ^ 53" using assms(1) by (metis of_int_less_iff of_int_numeral of_int_power)
  then have lt: "\<bar>?x\<bar> < 2 powi (k + 53)"
    unfolding ax using p [of k] by (simp add: power_int_add)
  have "2 powi (ilog2 \<bar>?x\<bar>) \<le> \<bar>?x\<bar>" using x0 by (intro ilog2_lower) simp
  with lt have "(2::real) powi (ilog2 \<bar>?x\<bar>) < 2 powi (k + 53)" by simp
  have "ilog2 \<bar>?x\<bar> < k + 53"
  proof (rule ccontr)
    assume "\<not> ilog2 \<bar>?x\<bar> < k + 53"
    then have "k + 53 \<le> ilog2 \<bar>?x\<bar>" by simp
    then have "(2::real) powi (k + 53) \<le> 2 powi (ilog2 \<bar>?x\<bar>)"
      by (intro power_int_increasing) simp_all
    with \<open>(2::real) powi (ilog2 \<bar>?x\<bar>) < 2 powi (k + 53)\<close> show False by simp
  qed
  then have e: "?e - 52 \<le> k" using assms(2) by simp
  define j where "j = nat (k - (?e - 52))"
  have k: "k = (?e - 52) + int j" using e by (simp add: j_def)
  have "?x / 2 powi (?e - 52) = of_int m * 2 powi (int j)"
    by (subst k) (simp add: power_int_add)
  also have "\<dots> = of_int (m * 2 ^ j)" by simp
  finally have d: "?x / 2 powi (?e - 52) = of_int (m * 2 ^ j)" .
  have r: "2 powi (?e - 52) * of_int (round_even (?x / 2 powi (?e - 52))) = ?x"
    unfolding d round_even_of_int unfolding d [symmetric] using p [of "?e - 52"] by simp
  have "\<bar>?x\<bar> < 2 powi (k + 53)" by (rule lt)
  also have "\<dots> \<le> 2 powi 1024" using assms(3) by (intro power_int_increasing) simp_all
  finally have "\<bar>?x\<bar> < DBL_INF" by (simp add: DBL_INF_def)
  then show ?thesis using x0 r by (simp add: round_double_def Let_def pow2_powi del: of_int_mult of_int_power)
qed

lemma round_double_of_int:
  "\<bar>m\<bar> < 2 ^ 53 \<Longrightarrow> round_double (of_int m) = of_int m"
  using round_double_exact [of m 0] by simp

lemma round_double_numeral [simp]:
  "(numeral n :: int) < 2 ^ 53 \<Longrightarrow> round_double (numeral n) = numeral n"
  using round_double_of_int [of "numeral n"] by simp

lemma round_double_1 [simp]: "round_double 1 = 1"
  using round_double_of_int [of 1] by simp

lemma round_double_half_numeral [simp]:
  "(numeral n :: int) < 2 ^ 53 \<Longrightarrow> round_double (numeral n / 2) = numeral n / 2"
  using round_double_exact [of "numeral n" "- 1"] by (simp add: power_int_minus field_simps)

lemma round_double_half [simp]: "round_double (1 / 2) = 1 / 2"
  using round_double_exact [of 1 "- 1"] by (simp add: power_int_minus field_simps)

lemmas round_double_eval = round_double_def ilog2_def round_even_def DBL_INF_def compute_floorlog
  Let_def pow2_def


text \<open>
  Two neighbouring doubles: the sum of 10 and \<open>10 + 2^(-49)\<close> lies half way between the
  doubles 20 and \<open>20 + 2^(-48)\<close> and rounds to 20, whose mantissa is even.
\<close>

lemma round_double_tie: "round_double (20 + 1 / 2 ^ 49) = 20"
  by (simp add: round_double_eval)

text \<open>A sum beyond the largest double: the midpoint is the infinity.\<close>

lemma mid_double_overflow:
  "mid_double \<lparr>lo = 2 ^ 1023, hi = 2 ^ 1023 + 2 ^ 1022\<rparr> = DBL_INF"
  by (simp add: mid_double_def round_double_eval)

subsection \<open>Bounding boxes of point sets\<close>

definition slice_set :: "'a list \<Rightarrow> int \<Rightarrow> int \<Rightarrow> 'a set" where
  "slice_set xs a b = {xs ! nat i | i. a \<le> i \<and> i < b}"

definition bbox :: "nat \<Rightarrow> Vector set \<Rightarrow> Bound" where
  "bbox dimension S =
     map (\<lambda>d. \<lparr>lo = Min (insert DBL_MAX ((\<lambda>v. v ! d) ` S)),
               hi = Max (insert (- DBL_MAX) ((\<lambda>v. v ! d) ` S))\<rparr>) [0..<dimension]"

lemma length_bbox [simp]: "length (bbox dimension S) = dimension"
  by (simp add: bbox_def)

lemma bbox_empty: "bbox dimension {} = Bound_Init dimension"
  by (simp add: bbox_def Bound_Init_def Range_InitEmptySet_def Range_Init_def map_replicate_const)

lemma finite_slice_set [simp]: "finite (slice_set xs a b)"
proof -
  have "slice_set xs a b = (\<lambda>i. xs ! nat i) ` {a..<b}"
    by (auto simp add: slice_set_def)
  then show ?thesis by simp
qed

lemma bbox_insert:
  assumes "finite S" and "length v = dimension"
  shows "Bound_union_vector (bbox dimension S) v = bbox dimension (insert v S)"
proof (rule nth_equalityI)
  show "length (Bound_union_vector (bbox dimension S) v) = length (bbox dimension (insert v S))"
    using assms by (simp add: Bound_union_vector_def)
next
  fix d assume "d < length (Bound_union_vector (bbox dimension S) v)"
  then have d: "d < dimension" using assms by (simp add: Bound_union_vector_def)
  have fin: "finite ((\<lambda>v. v ! d) ` S)" using assms by simp
  have "min (Min (insert DBL_MAX ((\<lambda>v. v ! d) ` S))) (v ! d)
          = Min (insert DBL_MAX (insert (v ! d) ((\<lambda>v. v ! d) ` S)))"
    using fin by (simp add: insert_commute [of DBL_MAX] min.commute)
  moreover have "max (Max (insert (- DBL_MAX) ((\<lambda>v. v ! d) ` S))) (v ! d)
          = Max (insert (- DBL_MAX) (insert (v ! d) ((\<lambda>v. v ! d) ` S)))"
    using fin by (simp add: insert_commute [of "- DBL_MAX"] max.commute)
  ultimately show "Bound_union_vector (bbox dimension S) v ! d = bbox dimension (insert v S) ! d"
    using d assms
    by (simp add: Bound_union_vector_def bbox_def Range_union_point_def Range_Init_def)
qed

lemma bbox_Contains:
  assumes "finite S" and "v \<in> S" and "length v = dimension"
  shows "Bound_Contains (bbox dimension S) v"
  unfolding Bound_Contains_def
proof (rule list_all2_all_nthI)
  show "length (bbox dimension S) = length v" using assms by simp
next
  fix d assume "d < length (bbox dimension S)"
  then have d: "d < dimension" by simp
  have "v ! d \<in> (\<lambda>v. v ! d) ` S" using assms by blast
  then have "Min (insert DBL_MAX ((\<lambda>v. v ! d) ` S)) \<le> v ! d"
    and "v ! d \<le> Max (insert (- DBL_MAX) ((\<lambda>v. v ! d) ` S))"
    using assms(1) by (auto intro: Min_le Max_ge)
  then show "Range_Contains (bbox dimension S ! d) (v ! d)"
    using d by (simp add: bbox_def Range_Contains_def)
qed

definition finite_coords :: "Vector \<Rightarrow> bool" where
  "finite_coords v = list_all (\<lambda>x. \<bar>x\<bar> \<le> DBL_MAX) v"

lemma DBL_MAX_pos: "0 < DBL_MAX"
  by (simp add: DBL_MAX_def)

lemma bbox_attained:
  assumes "finite S" and "S \<noteq> {}" and "d < dimension"
    and "\<forall>v\<in>S. length v = dimension \<and> finite_coords v"
  shows "(\<exists>v\<in>S. v ! d = lo (bbox dimension S ! d)) \<and> (\<exists>v\<in>S. v ! d = hi (bbox dimension S ! d))"
proof -
  let ?X = "(\<lambda>v. v ! d) ` S"
  have fin: "finite ?X" and ne: "?X \<noteq> {}" using assms by auto
  have bnd: "\<forall>x\<in>?X. \<bar>x\<bar> \<le> DBL_MAX"
    using assms(3,4) by (auto simp add: finite_coords_def list_all_length)
  from ne obtain x0 where x0: "x0 \<in> ?X" by blast
  with bnd have "x0 \<le> DBL_MAX" "- DBL_MAX \<le> x0" by (auto simp add: abs_le_iff)
  moreover have "Min ?X \<le> x0" "x0 \<le> Max ?X" using fin x0 by (auto intro: Min_le Max_ge)
  ultimately have "Min ?X \<le> DBL_MAX" "- DBL_MAX \<le> Max ?X" by linarith+
  moreover have "Min (insert DBL_MAX ?X) = min DBL_MAX (Min ?X)"
    "Max (insert (- DBL_MAX) ?X) = max (- DBL_MAX) (Max ?X)"
    using fin ne by (rule Min_insert, rule Max_insert)
  ultimately have "Min (insert DBL_MAX ?X) = Min ?X" "Max (insert (- DBL_MAX) ?X) = Max ?X"
    by linarith+
  moreover have "Min ?X \<in> ?X" "Max ?X \<in> ?X" using fin ne by (auto intro: Min_in Max_in)
  ultimately show ?thesis
    using assms(3) by (auto simp add: bbox_def)
qed

subsection \<open>The scans\<close>

lemma StartWrite_Inr: "StartWrite xs i = Inr v \<longleftrightarrow> in_range xs i \<and> v = xs ! nat i"
  by (auto simp add: StartWrite_def)

lemma StartWrite_Inl: "StartWrite xs i = Inl e \<longleftrightarrow> \<not> in_range xs i \<and> e = OutOfBounds"
  by (auto simp add: StartWrite_def)

lemma in_range_nth_mem: "in_range xs i \<Longrightarrow> xs ! nat i \<in> set xs"
  by (simp add: in_range_def nat_less_iff)

lemma get_in: "i < length xs \<Longrightarrow> get xs i = Inr (xs ! i)"
  by (simp add: get_def)

lemma slice_set_empty [simp]: "b \<le> a \<Longrightarrow> slice_set xs a b = {}"
  by (auto simp add: slice_set_def)

lemma slice_set_first: "a < b \<Longrightarrow> slice_set xs a b = insert (xs ! nat a) (slice_set xs (a + 1) b)"
proof -
  assume "a < b"
  then have "{i. a \<le> i \<and> i < b} = insert a {i. a + 1 \<le> i \<and> i < b}" by auto
  then show ?thesis
    unfolding slice_set_def by (auto simp add: set_eq_iff)
qed

lemma slice_set_last: "a < b \<Longrightarrow> slice_set xs a b = insert (xs ! nat (b - 1)) (slice_set xs a (b - 1))"
proof -
  assume "a < b"
  then have "{i. a \<le> i \<and> i < b} = insert (b - 1) {i. a \<le> i \<and> i < b - 1}" by auto
  then show ?thesis
    unfolding slice_set_def by (auto simp add: set_eq_iff)
qed

lemma slice_set_mem: "a \<le> i \<Longrightarrow> i < b \<Longrightarrow> xs ! nat i \<in> slice_set xs a b"
  by (auto simp add: slice_set_def)

lemma slice_set_mono: "a' \<le> a \<Longrightarrow> b \<le> b' \<Longrightarrow> slice_set xs a b \<subseteq> slice_set xs a' b'"
  by (fastforce simp add: slice_set_def)

lemma left_scan_spec:
  assumes "left_scan d sv pts left right lb = Inr (left', lb')"
    and "\<forall>v\<in>set pts. length v = dimension" and "d < dimension"
    and "left \<le> right + 1" and "finite A" and "lb = bbox dimension A"
  shows "left \<le> left' \<and> left' \<le> right + 1
       \<and> (\<forall>i. left \<le> i \<and> i < left' \<longrightarrow> pts ! nat i ! d < sv)
       \<and> lb' = bbox dimension (A \<union> slice_set pts left left')
       \<and> in_range pts left' \<and> (left' \<le> right \<longrightarrow> sv \<le> pts ! nat left' ! d)"
  using assms
proof (induction d sv pts left right lb arbitrary: A rule: left_scan.induct)
  case (1 d sv pts left right lb)
  from "1.prems"(1) obtain v where v: "in_range pts left" "v = pts ! nat left"
    by (subst (asm) left_scan.simps) (auto simp add: StartWrite_Inr split: sum.splits)
  then have vmem: "v \<in> set pts" by (simp add: in_range_nth_mem)
  then have len: "length v = dimension" using "1.prems" by blast
  then have g: "get v d = Inr (v ! d)" using "1.prems" by (simp add: get_in)
  have sw: "StartWrite pts left = Inr v" using v by (simp add: StartWrite_Inr)
  show ?case
  proof (cases "sv \<le> v ! d \<or> right < left")
    case True
    then have "left' = left" "lb' = lb"
      using "1.prems"(1) sw g by (subst (asm) left_scan.simps, simp)+
    then show ?thesis using True v "1.prems" by auto
  next
    case False
    then have rec: "left_scan d sv pts (left + 1) right (Bound_union_vector lb v) = Inr (left', lb')"
      using "1.prems"(1) sw g by (subst (asm) left_scan.simps) simp
    have b: "Bound_union_vector lb v = bbox dimension (insert v A)"
      using "1.prems" len by (simp add: bbox_insert)
    have ih: "left + 1 \<le> left' \<and> left' \<le> right + 1
       \<and> (\<forall>i. left + 1 \<le> i \<and> i < left' \<longrightarrow> pts ! nat i ! d < sv)
       \<and> lb' = bbox dimension (insert v A \<union> slice_set pts (left + 1) left')
       \<and> in_range pts left' \<and> (left' \<le> right \<longrightarrow> sv \<le> pts ! nat left' ! d)"
      using "1.IH" [OF sw g _ rec "1.prems"(2,3) _ _ b] False "1.prems"(5) by simp
    then have lt: "left < left'" by simp
    have "\<forall>i. left \<le> i \<and> i < left' \<longrightarrow> pts ! nat i ! d < sv"
    proof (intro allI impI)
      fix i assume i: "left \<le> i \<and> i < left'"
      show "pts ! nat i ! d < sv"
      proof (cases "i = left")
        case True then show ?thesis using False v by simp
      next
        case False then show ?thesis using i ih by simp
      qed
    qed
    moreover have "insert v A \<union> slice_set pts (left + 1) left' = A \<union> slice_set pts left left'"
      using slice_set_first [OF lt, of pts] v by auto
    ultimately show ?thesis using ih by simp
  qed
qed

lemma right_scan_spec:
  assumes "right_scan d sv pts left right rb = Inr (right', rb')"
    and "\<forall>v\<in>set pts. length v = dimension" and "d < dimension"
    and "left \<le> right + 1" and "finite B" and "rb = bbox dimension B"
  shows "right' \<le> right \<and> left \<le> right' + 1
       \<and> (\<forall>i. right' < i \<and> i \<le> right \<longrightarrow> sv \<le> pts ! nat i ! d)
       \<and> rb' = bbox dimension (B \<union> slice_set pts (right' + 1) (right + 1))
       \<and> in_range pts right' \<and> (left \<le> right' \<longrightarrow> pts ! nat right' ! d < sv)"
  using assms
proof (induction d sv pts left right rb arbitrary: B rule: right_scan.induct)
  case (1 d sv pts left right rb)
  from "1.prems"(1) obtain v where v: "in_range pts right" "v = pts ! nat right"
    by (subst (asm) right_scan.simps) (auto simp add: StartWrite_Inr split: sum.splits)
  then have vmem: "v \<in> set pts" by (simp add: in_range_nth_mem)
  then have len: "length v = dimension" using "1.prems" by blast
  then have g: "get v d = Inr (v ! d)" using "1.prems" by (simp add: get_in)
  have sw: "StartWrite pts right = Inr v" using v by (simp add: StartWrite_Inr)
  show ?case
  proof (cases "v ! d < sv \<or> right < left")
    case True
    then have "right' = right" "rb' = rb"
      using "1.prems"(1) sw g by (subst (asm) right_scan.simps, simp)+
    then show ?thesis using True v "1.prems" by auto
  next
    case False
    then have rec: "right_scan d sv pts left (right - 1) (Bound_union_vector rb v) = Inr (right', rb')"
      using "1.prems"(1) sw g by (subst (asm) right_scan.simps) simp
    have b: "Bound_union_vector rb v = bbox dimension (insert v B)"
      using "1.prems" len by (simp add: bbox_insert)
    have ih: "right' \<le> right - 1 \<and> left \<le> right' + 1
       \<and> (\<forall>i. right' < i \<and> i \<le> right - 1 \<longrightarrow> sv \<le> pts ! nat i ! d)
       \<and> rb' = bbox dimension (insert v B \<union> slice_set pts (right' + 1) (right - 1 + 1))
       \<and> in_range pts right' \<and> (left \<le> right' \<longrightarrow> pts ! nat right' ! d < sv)"
      using "1.IH" [OF sw g _ rec "1.prems"(2,3) _ _ b] False "1.prems"(5) by simp
    then have lt: "right' + 1 < right + 1" by simp
    have "\<forall>i. right' < i \<and> i \<le> right \<longrightarrow> sv \<le> pts ! nat i ! d"
    proof (intro allI impI)
      fix i assume i: "right' < i \<and> i \<le> right"
      show "sv \<le> pts ! nat i ! d"
      proof (cases "i = right")
        case True then show ?thesis using False v by simp
      next
        case False then show ?thesis using i ih by simp
      qed
    qed
    moreover have "insert v B \<union> slice_set pts (right' + 1) (right - 1 + 1)
        = B \<union> slice_set pts (right' + 1) (right + 1)"
      using slice_set_last [OF lt, of pts] v by auto
    ultimately show ?thesis using ih by simp
  qed
qed

subsection \<open>The partition loop\<close>

lemma swap_at_length [simp]: "length (swap_at xs a b) = length xs"
  by (simp add: swap_at_def)

lemma swap_at_set: "in_range xs a \<Longrightarrow> in_range xs b \<Longrightarrow> set (swap_at xs a b) = set xs"
  unfolding swap_at_def in_range_def
  by (simp add: set_swap nat_less_iff)

lemma swap_at_nth:
  assumes "in_range xs a" and "in_range xs b" and "0 \<le> i"
  shows "swap_at xs a b ! nat i =
     (if i = b then xs ! nat a else if i = a then xs ! nat b else xs ! nat i)"
  using assms unfolding swap_at_def in_range_def
  by (auto simp add: nth_list_update nat_less_iff nat_eq_iff)

lemma swap_at_nth_nat:
  assumes "in_range xs a" and "in_range xs b"
  shows "swap_at xs a b ! j =
     (if int j = b then xs ! nat a else if int j = a then xs ! nat b else xs ! j)"
  using swap_at_nth [OF assms, of "int j"] by simp

lemma slice_set_swap_outside:
  assumes "in_range xs a" and "in_range xs b" and "0 \<le> f"
    and "\<forall>i. f \<le> i \<and> i < l \<longrightarrow> i \<noteq> a \<and> i \<noteq> b"
  shows "slice_set (swap_at xs a b) f l = slice_set xs f l"
proof -
  have "swap_at xs a b ! nat i = xs ! nat i" if "f \<le> i" "i < l" for i
    using that assms swap_at_nth [OF assms(1,2), of i] by auto
  then show ?thesis unfolding slice_set_def by (auto, metis+)
qed

lemma slice_set_swap_inside:
  assumes "in_range xs a" and "in_range xs b" and "0 \<le> f"
    and "f \<le> a" "a < l" "f \<le> b" "b < l"
  shows "slice_set (swap_at xs a b) f l = slice_set xs f l"
proof (rule set_eqI, rule iffI)
  fix v assume "v \<in> slice_set (swap_at xs a b) f l"
  then obtain i where i: "f \<le> i" "i < l" "v = swap_at xs a b ! nat i"
    by (auto simp add: slice_set_def)
  then have "v = xs ! nat (if i = b then a else if i = a then b else i)"
    using swap_at_nth [OF assms(1,2), of i] assms(3) by auto
  moreover have "f \<le> (if i = b then a else if i = a then b else i)"
    "(if i = b then a else if i = a then b else i) < l"
    using i assms by auto
  ultimately show "v \<in> slice_set xs f l" by (metis slice_set_mem)
next
  fix v assume "v \<in> slice_set xs f l"
  then obtain i where i: "f \<le> i" "i < l" "v = xs ! nat i"
    by (auto simp add: slice_set_def)
  let ?j = "if i = b then a else if i = a then b else i"
  have "swap_at xs a b ! nat ?j = xs ! nat i"
    using swap_at_nth [OF assms(1,2), of ?j] assms i by auto
  moreover have "f \<le> ?j" "?j < l" using i assms by auto
  ultimately show "v \<in> slice_set (swap_at xs a b) f l"
    using i by (metis slice_set_mem)
qed

lemma Partition_loop_unfold:
  assumes "Partition_loop d sv pts infos left right lb rb = Inr res"
  shows "\<exists>left1 lb1 right1 rb1.
     left_scan d sv pts left right lb = Inr (left1, lb1)
     \<and> right_scan d sv pts left1 right rb = Inr (right1, rb1)
     \<and> (if left1 > right1 then res = (pts, infos, left1, right1, lb1, rb1)
        else in_range infos left1 \<and> in_range infos right1
          \<and> Partition_loop d sv (swap_at pts left1 right1) (swap_at infos left1 right1)
               left1 (right1 - 1)
               (Bound_union_vector lb1 (swap_at pts left1 right1 ! nat left1))
               (Bound_union_vector rb1 (swap_at pts left1 right1 ! nat right1)) = Inr res)"
  using assms
  by (subst (asm) Partition_loop.simps) (auto split: sum.splits prod.splits if_splits simp add: Let_def)

lemma Partition_loop_spec:
  assumes "Partition_loop d sv pts infos left right lb rb = Inr (pts', infos', left', right', lb', rb')"
    and "\<forall>v\<in>set pts. length v = dimension" and "d < dimension"
    and "0 \<le> first" and "first \<le> left" and "left \<le> right + 1" and "right \<le> lastp"
    and "\<forall>i. first \<le> i \<and> i < left \<longrightarrow> pts ! nat i ! d < sv"
    and "\<forall>i. right < i \<and> i \<le> lastp \<longrightarrow> sv \<le> pts ! nat i ! d"
    and "finite A" and "lb = bbox dimension A" and "slice_set pts first left \<subseteq> A"
    and "A \<subseteq> {v \<in> slice_set pts first (lastp + 1). v ! d < sv}"
    and "finite B" and "rb = bbox dimension B" and "slice_set pts (right + 1) (lastp + 1) \<subseteq> B"
    and "B \<subseteq> {v \<in> slice_set pts first (lastp + 1). sv \<le> v ! d}"
  shows "left' = right' + 1 \<and> first \<le> left' \<and> left' \<le> lastp + 1
      \<and> (\<forall>i. first \<le> i \<and> i < left' \<longrightarrow> pts' ! nat i ! d < sv)
      \<and> (\<forall>i. left' \<le> i \<and> i \<le> lastp \<longrightarrow> sv \<le> pts' ! nat i ! d)
      \<and> lb' = bbox dimension (slice_set pts' first left')
      \<and> rb' = bbox dimension (slice_set pts' left' (lastp + 1))
      \<and> length pts' = length pts \<and> set pts' = set pts
      \<and> (\<forall>j. \<not> (first \<le> int j \<and> int j \<le> lastp) \<longrightarrow> pts' ! j = pts ! j)
      \<and> slice_set pts' first (lastp + 1) = slice_set pts first (lastp + 1)"
  using assms
proof (induction "nat (right + 1 - left)" arbitrary: pts infos left right lb rb A B rule: less_induct)
  case less
  note wf = less.prems(2,3)
  from Partition_loop_unfold [OF less.prems(1)] obtain left1 lb1 right1 rb1 where
    ls: "left_scan d sv pts left right lb = Inr (left1, lb1)" and
    rs: "right_scan d sv pts left1 right rb = Inr (right1, rb1)" and
    rest: "if left1 > right1 then (pts', infos', left', right', lb', rb') = (pts, infos, left1, right1, lb1, rb1)
        else in_range infos left1 \<and> in_range infos right1
          \<and> Partition_loop d sv (swap_at pts left1 right1) (swap_at infos left1 right1)
               left1 (right1 - 1)
               (Bound_union_vector lb1 (swap_at pts left1 right1 ! nat left1))
               (Bound_union_vector rb1 (swap_at pts left1 right1 ! nat right1))
              = Inr (pts', infos', left', right', lb', rb')"
    by blast
  define A1 where "A1 = A \<union> slice_set pts left left1"
  define B1 where "B1 = B \<union> slice_set pts (right1 + 1) (right + 1)"
  from left_scan_spec [OF ls wf less.prems(6) less.prems(10,11)]
  have L: "left \<le> left1" "left1 \<le> right + 1"
    "\<forall>i. left \<le> i \<and> i < left1 \<longrightarrow> pts ! nat i ! d < sv"
    "lb1 = bbox dimension A1" "in_range pts left1"
    "left1 \<le> right \<longrightarrow> sv \<le> pts ! nat left1 ! d"
    by (simp_all add: A1_def)
  from right_scan_spec [OF rs wf L(2) less.prems(14,15)]
  have R: "right1 \<le> right" "left1 \<le> right1 + 1"
    "\<forall>i. right1 < i \<and> i \<le> right \<longrightarrow> sv \<le> pts ! nat i ! d"
    "rb1 = bbox dimension B1" "in_range pts right1"
    "left1 \<le> right1 \<longrightarrow> pts ! nat right1 ! d < sv"
    by (simp_all add: B1_def)
  have I1: "\<forall>i. first \<le> i \<and> i < left1 \<longrightarrow> pts ! nat i ! d < sv"
    using less.prems(8) L(3) by (metis not_le_imp_less)
  have I2: "\<forall>i. right1 < i \<and> i \<le> lastp \<longrightarrow> sv \<le> pts ! nat i ! d"
    using less.prems(9) R(3) by (metis not_le_imp_less)
  have finA1: "finite A1" and finB1: "finite B1"
    using less.prems(10,14) by (simp_all add: A1_def B1_def)
  have A1_lower: "slice_set pts first left1 \<subseteq> A1"
  proof
    fix v assume "v \<in> slice_set pts first left1"
    then obtain i where i: "first \<le> i" "i < left1" "v = pts ! nat i"
      by (auto simp add: slice_set_def)
    show "v \<in> A1"
    proof (cases "i < left")
      case True
      then have "v \<in> slice_set pts first left" using i by (auto simp add: slice_set_def)
      then show ?thesis using less.prems(12) by (auto simp add: A1_def)
    next
      case False
      then have "v \<in> slice_set pts left left1" using i by (auto simp add: slice_set_def)
      then show ?thesis by (simp add: A1_def)
    qed
  qed
  have A1_upper: "A1 \<subseteq> {v \<in> slice_set pts first (lastp + 1). v ! d < sv}"
  proof
    fix v assume "v \<in> A1"
    then consider "v \<in> A" | "v \<in> slice_set pts left left1" by (auto simp add: A1_def)
    then show "v \<in> {v \<in> slice_set pts first (lastp + 1). v ! d < sv}"
    proof cases
      case 1 then show ?thesis using less.prems(13) by blast
    next
      case 2
      then obtain i where i: "left \<le> i" "i < left1" "v = pts ! nat i"
        by (auto simp add: slice_set_def)
      then have "first \<le> i" "i < lastp + 1" using less.prems(5,7) L(2) by auto
      then have "v \<in> slice_set pts first (lastp + 1)" using i by (auto simp add: slice_set_def)
      then show ?thesis using L(3) i by auto
    qed
  qed
  have B1_lower: "slice_set pts (right1 + 1) (lastp + 1) \<subseteq> B1"
  proof
    fix v assume "v \<in> slice_set pts (right1 + 1) (lastp + 1)"
    then obtain i where i: "right1 + 1 \<le> i" "i < lastp + 1" "v = pts ! nat i"
      by (auto simp add: slice_set_def)
    show "v \<in> B1"
    proof (cases "right < i")
      case True
      then have "v \<in> slice_set pts (right + 1) (lastp + 1)" using i by (auto simp add: slice_set_def)
      then show ?thesis using less.prems(16) by (auto simp add: B1_def)
    next
      case False
      then have "v \<in> slice_set pts (right1 + 1) (right + 1)" using i by (auto simp add: slice_set_def)
      then show ?thesis by (simp add: B1_def)
    qed
  qed
  have B1_upper: "B1 \<subseteq> {v \<in> slice_set pts first (lastp + 1). sv \<le> v ! d}"
  proof
    fix v assume "v \<in> B1"
    then consider "v \<in> B" | "v \<in> slice_set pts (right1 + 1) (right + 1)" by (auto simp add: B1_def)
    then show "v \<in> {v \<in> slice_set pts first (lastp + 1). sv \<le> v ! d}"
    proof cases
      case 1 then show ?thesis using less.prems(17) by blast
    next
      case 2
      then obtain i where i: "right1 + 1 \<le> i" "i < right + 1" "v = pts ! nat i"
        by (auto simp add: slice_set_def)
      then have "first \<le> i" "i < lastp + 1" using less.prems(5,7) L(1) R(2) by auto
      then have "v \<in> slice_set pts first (lastp + 1)" using i by (auto simp add: slice_set_def)
      then show ?thesis using R(3) i by auto
    qed
  qed
  show ?case
  proof (cases "left1 > right1")
    case True
    with rest have eq: "pts' = pts" "left' = left1" "right' = right1" "lb' = lb1" "rb' = rb1"
      by simp_all
    have l1: "left1 = right1 + 1" using True R(2) by simp
    have "slice_set pts first left1 = A1"
    proof (rule subset_antisym [OF A1_lower])
      show "A1 \<subseteq> slice_set pts first left1"
      proof
        fix v assume "v \<in> A1"
        with A1_upper obtain i where i: "first \<le> i" "i < lastp + 1" "v = pts ! nat i" "v ! d < sv"
          by (auto simp add: slice_set_def)
        then have "i < left1" using I2 l1 by force
        then show "v \<in> slice_set pts first left1" using i by (auto simp add: slice_set_def)
      qed
    qed
    moreover have "slice_set pts left1 (lastp + 1) = B1"
    proof (rule subset_antisym)
      show "slice_set pts left1 (lastp + 1) \<subseteq> B1" using B1_lower l1 by simp
      show "B1 \<subseteq> slice_set pts left1 (lastp + 1)"
      proof
        fix v assume "v \<in> B1"
        with B1_upper obtain i where i: "first \<le> i" "i < lastp + 1" "v = pts ! nat i" "sv \<le> v ! d"
          by (auto simp add: slice_set_def)
        then have "left1 \<le> i" using I1 by force
        then show "v \<in> slice_set pts left1 (lastp + 1)" using i by (auto simp add: slice_set_def)
      qed
    qed
    moreover have "first \<le> left1" "left1 \<le> lastp + 1"
      using less.prems(5,7) L(1,2) by auto
    moreover have "\<forall>i. left1 \<le> i \<and> i \<le> lastp \<longrightarrow> sv \<le> pts ! nat i ! d"
      using I2 l1 by simp
    ultimately show ?thesis using eq l1 I1 L(4) R(4) by simp
  next
    case False
    then have le: "left1 \<le> right1" by simp
    then have "sv \<le> pts ! nat left1 ! d" "pts ! nat right1 ! d < sv"
      using L(6) R(1,6) by auto
    then have lt: "left1 < right1" using le by (cases "left1 = right1") auto
    define pts2 where "pts2 = swap_at pts left1 right1"
    define A2 where "A2 = insert (pts2 ! nat left1) A1"
    define B2 where "B2 = insert (pts2 ! nat right1) B1"
    from rest False have rec: "Partition_loop d sv pts2 (swap_at infos left1 right1)
               left1 (right1 - 1)
               (Bound_union_vector lb1 (pts2 ! nat left1))
               (Bound_union_vector rb1 (pts2 ! nat right1))
              = Inr (pts', infos', left', right', lb', rb')"
      by (simp add: pts2_def)
    have f0: "0 \<le> left1" "0 \<le> right1" using L(5) R(5) by (simp_all add: in_range_def)
    have nth2: "pts2 ! nat i = (if i = right1 then pts ! nat left1
                 else if i = left1 then pts ! nat right1 else pts ! nat i)" if "0 \<le> i" for i
      unfolding pts2_def using swap_at_nth [OF L(5) R(5) that] .
    have set2: "set pts2 = set pts" unfolding pts2_def by (rule swap_at_set [OF L(5) R(5)])
    have wf2: "\<forall>v\<in>set pts2. length v = dimension" using wf set2 by simp
    have inr2: "in_range pts2 left1" "in_range pts2 right1"
      using L(5) R(5) by (simp_all add: in_range_def pts2_def)
    have len2: "length (pts2 ! nat left1) = dimension" "length (pts2 ! nat right1) = dimension"
      using wf2 inr2 by (simp_all add: in_range_nth_mem)
    have first_le: "first \<le> left1" using less.prems(5) L(1) by simp
    have right1_le: "right1 \<le> lastp" using less.prems(7) R(1) by simp
    have whole2: "slice_set pts2 first (lastp + 1) = slice_set pts first (lastp + 1)"
      unfolding pts2_def
      using slice_set_swap_inside [OF L(5) R(5) less.prems(4)] first_le right1_le lt by simp
    have m: "nat (right1 - 1 + 1 - left1) < nat (right + 1 - left)"
      using lt L(1) R(1) by simp
    have p5: "left1 \<le> right1 - 1 + 1" using lt by simp
    have p6: "right1 - 1 \<le> lastp" using right1_le by simp
    have p7: "\<forall>i. first \<le> i \<and> i < left1 \<longrightarrow> pts2 ! nat i ! d < sv"
      using I1 nth2 less.prems(4) lt by auto
    have p8: "\<forall>i. right1 - 1 < i \<and> i \<le> lastp \<longrightarrow> sv \<le> pts2 ! nat i ! d"
    proof (intro allI impI)
      fix i assume i: "right1 - 1 < i \<and> i \<le> lastp"
      then have "0 \<le> i" using f0 by simp
      show "sv \<le> pts2 ! nat i ! d"
      proof (cases "i = right1")
        case True
        then show ?thesis using nth2 [OF \<open>0 \<le> i\<close>] \<open>sv \<le> pts ! nat left1 ! d\<close> by simp
      next
        case False
        then have "right1 < i" using i by simp
        then show ?thesis using nth2 [OF \<open>0 \<le> i\<close>] I2 i lt by auto
      qed
    qed
    have p9: "finite A2" using finA1 by (simp add: A2_def)
    have p10: "Bound_union_vector lb1 (pts2 ! nat left1) = bbox dimension A2"
      using L(4) finA1 len2 by (simp add: bbox_insert A2_def)
    have p11: "slice_set pts2 first left1 \<subseteq> A2"
    proof -
      have "slice_set pts2 first left1 = slice_set pts first left1"
        unfolding pts2_def
        using slice_set_swap_outside [OF L(5) R(5) less.prems(4), of left1] lt by simp
      then show ?thesis using A1_lower by (auto simp add: A2_def)
    qed
    have p12: "A2 \<subseteq> {v \<in> slice_set pts2 first (lastp + 1). v ! d < sv}"
    proof -
      have "pts2 ! nat left1 = pts ! nat right1" using nth2 [OF f0(1)] lt by simp
      moreover have "pts ! nat right1 \<in> slice_set pts first (lastp + 1)"
        using first_le lt right1_le by (intro slice_set_mem) auto
      ultimately show ?thesis
        using A1_upper whole2 \<open>pts ! nat right1 ! d < sv\<close> by (auto simp add: A2_def)
    qed
    have p13: "finite B2" using finB1 by (simp add: B2_def)
    have p14: "Bound_union_vector rb1 (pts2 ! nat right1) = bbox dimension B2"
      using R(4) finB1 len2 by (simp add: bbox_insert B2_def)
    have p15: "slice_set pts2 (right1 - 1 + 1) (lastp + 1) \<subseteq> B2"
    proof -
      have "slice_set pts2 (right1 + 1) (lastp + 1) = slice_set pts (right1 + 1) (lastp + 1)"
        unfolding pts2_def
        using slice_set_swap_outside [OF L(5) R(5), of "right1 + 1" "lastp + 1"] lt f0 by simp
      moreover have "slice_set pts2 right1 (lastp + 1)
          = insert (pts2 ! nat right1) (slice_set pts2 (right1 + 1) (lastp + 1))"
        using right1_le by (intro slice_set_first) simp
      ultimately show ?thesis using B1_lower by (auto simp add: B2_def)
    qed
    have p16: "B2 \<subseteq> {v \<in> slice_set pts2 first (lastp + 1). sv \<le> v ! d}"
    proof -
      have "pts2 ! nat right1 = pts ! nat left1" using nth2 [OF f0(2)] by simp
      moreover have "pts ! nat left1 \<in> slice_set pts first (lastp + 1)"
        using first_le lt right1_le by (intro slice_set_mem) auto
      ultimately show ?thesis
        using B1_upper whole2 \<open>sv \<le> pts ! nat left1 ! d\<close> by (auto simp add: B2_def)
    qed
    from less.hyps [OF m rec wf2 wf(2) less.prems(4) first_le p5 p6 p7 p8 p9 p10 p11 p12 p13 p14 p15 p16]
    have ih: "left' = right' + 1 \<and> first \<le> left' \<and> left' \<le> lastp + 1
      \<and> (\<forall>i. first \<le> i \<and> i < left' \<longrightarrow> pts' ! nat i ! d < sv)
      \<and> (\<forall>i. left' \<le> i \<and> i \<le> lastp \<longrightarrow> sv \<le> pts' ! nat i ! d)
      \<and> lb' = bbox dimension (slice_set pts' first left')
      \<and> rb' = bbox dimension (slice_set pts' left' (lastp + 1))
      \<and> length pts' = length pts2 \<and> set pts' = set pts2
      \<and> (\<forall>j. \<not> (first \<le> int j \<and> int j \<le> lastp) \<longrightarrow> pts' ! j = pts2 ! j)
      \<and> slice_set pts' first (lastp + 1) = slice_set pts2 first (lastp + 1)" .
    have "pts2 ! j = pts ! j" if "\<not> (first \<le> int j \<and> int j \<le> lastp)" for j
      using that nth2 [of "int j"] first_le right1_le lt by auto
    then show ?thesis using ih set2 whole2 by (simp add: pts2_def)
  qed
qed

lemma right_scan_as_written_isl:
  "right_scan_as_written pts right = Some y \<Longrightarrow> isl y"
  by (rule right_scan_as_written.raw_induct [where P = "\<lambda>pts right y. isl y"])
     (auto split: sum.splits)

lemma right_scan_as_written_out_of_range:
  "right_scan_as_written pts right = Some y \<Longrightarrow> \<not> in_range pts right"
  by (rule right_scan_as_written.raw_induct
        [where P = "\<lambda>pts right y. \<not> in_range pts right"])
     (auto split: sum.splits simp add: StartWrite_Inr StartWrite_Inl)

lemma right_scan_as_written_in_range:
  assumes "in_range pts right"
  shows "right_scan_as_written pts right = None"
  using assms right_scan_as_written_out_of_range [of pts right] by fastforce

lemma Partition_AsWritten_no_index:
  "Partition AsWritten d sv first count' pts infos lb rb \<noteq> Some (Inr r)"
proof
  assume a: "Partition AsWritten d sv first count' pts infos lb rb = Some (Inr r)"
  then obtain y where "right_scan_as_written pts (first + count' - 1) = Some (Inr r)"
    by (auto simp add: Partition_def Let_def split: sum.splits prod.splits)
  then show False using right_scan_as_written_isl by fastforce
qed

lemma Partition_spec:
  assumes "Partition rd d sv first count' pts infos (Bound_Init dimension) (Bound_Init dimension)
             = Some (Inr (split_col, pts', infos', lb', rb'))"
    and "\<forall>v\<in>set pts. length v = dimension" and "d < dimension"
    and "0 \<le> first" and "0 \<le> count'"
  shows "rd = AsIndented \<and> first \<le> split_col \<and> split_col \<le> first + count'
      \<and> (\<forall>i. first \<le> i \<and> i < split_col \<longrightarrow> pts' ! nat i ! d < sv)
      \<and> (\<forall>i. split_col \<le> i \<and> i < first + count' \<longrightarrow> sv \<le> pts' ! nat i ! d)
      \<and> lb' = bbox dimension (slice_set pts' first split_col)
      \<and> rb' = bbox dimension (slice_set pts' split_col (first + count'))
      \<and> length pts' = length pts \<and> set pts' = set pts
      \<and> (\<forall>j. \<not> (first \<le> int j \<and> int j < first + count') \<longrightarrow> pts' ! j = pts ! j)
      \<and> slice_set pts' first (first + count') = slice_set pts first (first + count')"
proof -
  have rd: "rd = AsIndented"
  proof (cases rd)
    case AsWritten
    with assms(1) show ?thesis using Partition_AsWritten_no_index by blast
  qed
  with assms(1) obtain right' where
    loop: "Partition_loop d sv pts infos first (first + count' - 1)
             (Bound_Init dimension) (Bound_Init dimension)
           = Inr (pts', infos', split_col, right', lb', rb')"
    by (auto simp add: Partition_def Let_def split: sum.splits prod.splits if_splits)
  have e: "Bound_Init dimension = bbox dimension {}" by (simp add: bbox_empty)
  from Partition_loop_spec [OF loop assms(2,3,4), of "first + count' - 1" "{}" "{}"] assms(5) e
  have "split_col = right' + 1 \<and> first \<le> split_col \<and> split_col \<le> first + count' - 1 + 1
      \<and> (\<forall>i. first \<le> i \<and> i < split_col \<longrightarrow> pts' ! nat i ! d < sv)
      \<and> (\<forall>i. split_col \<le> i \<and> i \<le> first + count' - 1 \<longrightarrow> sv \<le> pts' ! nat i ! d)
      \<and> lb' = bbox dimension (slice_set pts' first split_col)
      \<and> rb' = bbox dimension (slice_set pts' split_col (first + count' - 1 + 1))
      \<and> length pts' = length pts \<and> set pts' = set pts
      \<and> (\<forall>j. \<not> (first \<le> int j \<and> int j \<le> first + count' - 1) \<longrightarrow> pts' ! j = pts ! j)
      \<and> slice_set pts' first (first + count' - 1 + 1) = slice_set pts first (first + count' - 1 + 1)"
    by simp
  then show ?thesis using rd by (simp add: zle_diff1_eq)
qed

lemma widest_loop_result:
  assumes "widest_loop b ds (mw0, sd0) = Inr (mw, sd)"
  shows "mw0 \<le> mw \<and> (\<forall>d\<in>set ds. width_double (b ! d) \<le> mw)
       \<and> ((mw, sd) = (mw0, sd0) \<or> sd \<in> set ds \<and> mw = width_double (b ! sd))"
  using assms
proof (induction ds arbitrary: mw0 sd0)
  case Nil
  then show ?case by simp
next
  case (Cons d ds)
  from Cons.prems have g: "get b d = Inr (b ! d)"
    by (auto simp add: get_def split: sum.splits if_splits)
  show ?case
  proof (cases "width_double (b ! d) > mw0")
    case True
    with Cons.prems g have "widest_loop b ds (width_double (b ! d), d) = Inr (mw, sd)" by simp
    from Cons.IH [OF this] True show ?thesis by auto
  next
    case False
    with Cons.prems g have "widest_loop b ds (mw0, sd0) = Inr (mw, sd)" by simp
    from Cons.IH [OF this] False show ?thesis by auto
  qed
qed

lemma bbox_lo_le_hi:
  assumes "finite S" and "S \<noteq> {}" and "d < dimension"
  shows "lo (bbox dimension S ! d) \<le> hi (bbox dimension S ! d)"
proof -
  from assms obtain v where v: "v \<in> S" by blast
  let ?X = "(\<lambda>v. v ! d) ` S"
  have "Min (insert DBL_MAX ?X) \<le> v ! d" "v ! d \<le> Max (insert (- DBL_MAX) ?X)"
    using assms(1) v by (auto intro: Min_le Max_ge)
  then show ?thesis using assms(3) by (simp add: bbox_def)
qed

lemma bbox_width_nonneg:
  assumes "finite S" and "S \<noteq> {}" and "d < dimension"
  shows "0 \<le> width_double (bbox dimension S ! d)"
  unfolding width_double_def using bbox_lo_le_hi [OF assms] by (intro round_double_nonneg) simp

subsection \<open>Invariants of the node array\<close>

definition same_range :: "Node \<Rightarrow> Node \<Rightarrow> bool" where
  "same_range m n = (n_bound m = n_bound n \<and> n_begin m = n_begin n \<and> n_count m = n_count n)"

definition node_tight :: "nat \<Rightarrow> Vector list \<Rightarrow> Node \<Rightarrow> bool" where
  "node_tight dimension pts m =
     (0 \<le> n_begin m \<and> 1 \<le> n_count m \<and> n_end m \<le> int (length pts)
      \<and> n_bound m = bbox dimension (slice_set pts (n_begin m) (n_end m)))"

definition children_ok :: "Node list \<Rightarrow> Node \<Rightarrow> bool" where
  "children_ok ns m =
     (case (n_child0 m, n_child1 m) of
        (None, None) \<Rightarrow> True
      | (Some l, Some r) \<Rightarrow>
          l < length ns \<and> r < length ns
          \<and> n_begin (ns ! l) = n_begin m \<and> n_end (ns ! l) = n_begin (ns ! r)
          \<and> n_end (ns ! r) = n_end m
          \<and> 1 \<le> n_count (ns ! l) \<and> 1 \<le> n_count (ns ! r)
      | _ \<Rightarrow> False)"

definition leaf_total :: "Node list \<Rightarrow> int" where
  "leaf_total ms = sum_list (map (\<lambda>m. if n_child0 m = None then n_count m else 0) ms)"

definition extends :: "Node list \<Rightarrow> Node list \<Rightarrow> bool" where
  "extends ns ns' = (length ns \<le> length ns' \<and> (\<forall>k<length ns. same_range (ns' ! k) (ns ! k)))"

lemma same_range_refl [simp]: "same_range n n"
  by (simp add: same_range_def)

lemma same_range_trans: "same_range a b \<Longrightarrow> same_range b c \<Longrightarrow> same_range a c"
  by (simp add: same_range_def)

lemma same_range_n_end: "same_range a b \<Longrightarrow> n_end a = n_end b"
  by (simp add: same_range_def n_end_def)

lemma extends_refl [simp]: "extends ns ns"
  by (simp add: extends_def)

lemma extends_trans: "extends a b \<Longrightarrow> extends b c \<Longrightarrow> extends a c"
  unfolding extends_def by (meson order_trans less_le_trans same_range_trans)

lemma extends_update_append:
  assumes "i < length ns" and "same_range n' (ns ! i)"
  shows "extends ns (ns[i := n'] @ new)"
  using assms by (auto simp add: extends_def nth_append nth_list_update)

lemma children_ok_extends:
  assumes "children_ok ns m" and "extends ns ns'"
  shows "children_ok ns' m"
proof (cases "n_child0 m")
  case None
  with assms(1) show ?thesis by (auto simp add: children_ok_def split: option.splits)
next
  case l: (Some l)
  show ?thesis
  proof (cases "n_child1 m")
    case None
    with assms(1) l show ?thesis by (auto simp add: children_ok_def split: option.splits)
  next
    case r: (Some r)
    from assms(1) l r have a: "l < length ns" "r < length ns"
      "n_begin (ns ! l) = n_begin m" "n_end (ns ! l) = n_begin (ns ! r)" "n_end (ns ! r) = n_end m"
      "1 \<le> n_count (ns ! l)" "1 \<le> n_count (ns ! r)"
      by (simp_all add: children_ok_def)
    from assms(2) a(1,2) have s: "same_range (ns' ! l) (ns ! l)" "same_range (ns' ! r) (ns ! r)"
      "l < length ns'" "r < length ns'"
      by (auto simp add: extends_def)
    then show ?thesis using a l r
      by (simp add: children_ok_def same_range_def n_end_def)
  qed
qed

lemma slice_set_split:
  assumes "a \<le> m" and "m \<le> b"
  shows "slice_set xs a b = slice_set xs a m \<union> slice_set xs m b"
proof -
  have "{i. a \<le> i \<and> i < b} = {i. a \<le> i \<and> i < m} \<union> {i. m \<le> i \<and> i < b}"
    using assms by auto
  moreover have "slice_set xs a' b' = (\<lambda>i. xs ! nat i) ` {i. a' \<le> i \<and> i < b'}" for a' b'
    by (auto simp add: slice_set_def)
  ultimately show ?thesis by (simp add: image_Un)
qed

lemma slice_set_cong:
  assumes "\<forall>j. a \<le> int j \<and> int j < b \<longrightarrow> xs ! j = ys ! j" and "0 \<le> a"
  shows "slice_set xs a b = slice_set ys a b"
proof -
  have "xs ! nat i = ys ! nat i" if "a \<le> i" "i < b" for i
    using assms that by (metis int_nat_eq order_trans)
  then show ?thesis unfolding slice_set_def by (auto, metis+)
qed

lemma node_tight_frame:
  assumes "node_tight dimension pts m" and "length pts' = length pts"
    and "\<forall>j. n_begin m \<le> int j \<and> int j < n_end m \<longrightarrow> pts' ! j = pts ! j"
  shows "node_tight dimension pts' m"
proof -
  have "slice_set pts' (n_begin m) (n_end m) = slice_set pts (n_begin m) (n_end m)"
    using assms by (intro slice_set_cong) (auto simp add: node_tight_def)
  then show ?thesis using assms by (simp add: node_tight_def)
qed

lemma leaf_total_simps [simp]:
  "leaf_total [] = 0"
  "leaf_total (m # ms) = (if n_child0 m = None then n_count m else 0) + leaf_total ms"
  "leaf_total (ms @ ms') = leaf_total ms + leaf_total ms'"
  by (simp_all add: leaf_total_def)

lemma get_error: "get xs i = Inl e \<Longrightarrow> e = OutOfBounds"
  by (auto simp add: get_def split: if_splits)

lemma StartWrite_error: "StartWrite xs i = Inl e \<Longrightarrow> e = OutOfBounds"
  by (auto simp add: StartWrite_def split: if_splits)

lemma left_scan_error: "left_scan d sv pts left right lb = Inl e \<Longrightarrow> e = OutOfBounds"
proof (induction d sv pts left right lb rule: left_scan.induct)
  case (1 d sv pts left right lb)
  show ?case
  proof (cases "StartWrite pts left")
    case (Inl e')
    with "1.prems" show ?thesis
      by (subst (asm) left_scan.simps) (simp add: StartWrite_error)
  next
    case v: (Inr v)
    show ?thesis
    proof (cases "get v d")
      case (Inl e')
      with "1.prems" v show ?thesis
        by (subst (asm) left_scan.simps) (simp add: get_error)
    next
      case x: (Inr x)
      show ?thesis
      proof (cases "sv \<le> x \<or> right < left")
        case True
        with "1.prems" v x show ?thesis by (subst (asm) left_scan.simps) simp
      next
        case False
        with "1.prems" v x have
          "left_scan d sv pts (left + 1) right (Bound_union_vector lb v) = Inl e"
          by (subst (asm) left_scan.simps) simp
        with "1.IH" [OF v x False] show ?thesis by simp
      qed
    qed
  qed
qed

lemma right_scan_error: "right_scan d sv pts left right rb = Inl e \<Longrightarrow> e = OutOfBounds"
proof (induction d sv pts left right rb rule: right_scan.induct)
  case (1 d sv pts left right rb)
  show ?case
  proof (cases "StartWrite pts right")
    case (Inl e')
    with "1.prems" show ?thesis
      by (subst (asm) right_scan.simps) (simp add: StartWrite_error)
  next
    case v: (Inr v)
    show ?thesis
    proof (cases "get v d")
      case (Inl e')
      with "1.prems" v show ?thesis
        by (subst (asm) right_scan.simps) (simp add: get_error)
    next
      case x: (Inr x)
      show ?thesis
      proof (cases "x < sv \<or> right < left")
        case True
        with "1.prems" v x show ?thesis by (subst (asm) right_scan.simps) simp
      next
        case False
        with "1.prems" v x have
          "right_scan d sv pts left (right - 1) (Bound_union_vector rb v) = Inl e"
          by (subst (asm) right_scan.simps) simp
        with "1.IH" [OF v x False] show ?thesis by simp
      qed
    qed
  qed
qed

lemma Partition_loop_error:
  "Partition_loop d sv pts infos left right lb rb = Inl e \<Longrightarrow> e = OutOfBounds"
proof (induction "nat (right + 1 - left)" arbitrary: pts infos left right lb rb rule: less_induct)
  case less
  show ?case
  proof (cases "left_scan d sv pts left right lb")
    case (Inl e')
    with less.prems show ?thesis
      by (subst (asm) Partition_loop.simps) (simp add: left_scan_error)
  next
    case (Inr p)
    then obtain left1 lb1 where ls: "left_scan d sv pts left right lb = Inr (left1, lb1)"
      by (cases p) simp
    show ?thesis
    proof (cases "right_scan d sv pts left1 right rb")
      case (Inl e')
      with less.prems ls show ?thesis
        by (subst (asm) Partition_loop.simps) (simp add: right_scan_error)
    next
      case (Inr q)
      then obtain right1 rb1 where rs: "right_scan d sv pts left1 right rb = Inr (right1, rb1)"
        by (cases q) simp
      show ?thesis
      proof (cases "left1 > right1 \<or> \<not> (in_range infos left1 \<and> in_range infos right1)")
        case True
        with less.prems ls rs show ?thesis
          by (subst (asm) Partition_loop.simps) (auto split: if_splits)
      next
        case False
        with less.prems ls rs have rec:
          "Partition_loop d sv (swap_at pts left1 right1) (swap_at infos left1 right1)
               left1 (right1 - 1)
               (Bound_union_vector lb1 (swap_at pts left1 right1 ! nat left1))
               (Bound_union_vector rb1 (swap_at pts left1 right1 ! nat right1)) = Inl e"
          by (subst (asm) Partition_loop.simps) (simp add: Let_def)
        have "left \<le> left1" "right1 \<le> right"
          using left_scan_ge [OF ls] right_scan_le [OF rs] by simp_all
        then have "nat (right1 - 1 + 1 - left1) < nat (right + 1 - left)"
          using False by simp
        from less.hyps [OF this rec] show ?thesis .
      qed
    qed
  qed
qed

lemma widest_loop_error: "widest_loop b ds acc = Inl e \<Longrightarrow> e = OutOfBounds"
  by (induction b ds acc rule: widest_loop.induct)
     (auto split: sum.splits if_splits simp add: get_def)

subsection \<open>One call of Build\_node\<close>

definition mk_node :: "Bound \<Rightarrow> int \<Rightarrow> int \<Rightarrow> Node" where
  "mk_node b first count' =
     \<lparr>n_bound = b, n_begin = first, n_count = count', n_child0 = None, n_child1 = None,
      n_leaf = False\<rparr>"

lemma bind_result_simps [simp]:
  "bind_result None f = None"
  "bind_result (Some (Inl e)) f = Some (Inl e)"
  "bind_result (Some (Inr x)) f = f x"
  by (simp_all add: bind_result_def)

lemma bind_result_Some:
  "bind_result m f = Some y \<longleftrightarrow>
     (\<exists>e. m = Some (Inl e) \<and> y = Inl e) \<or> (\<exists>x. m = Some (Inr x) \<and> f x = Some y)"
  by (cases m) (auto simp add: bind_result_def split: sum.splits)

lemma Build_node_no_split:
  assumes "i < length (nodes s)"
    and "\<not> n_count (nodes s ! i) > leaf_size s
         \<or> (\<exists>sd r. widest_loop (n_bound (nodes s ! i)) [0..<dim s] (- 1, BIG_BAD_NUMBER) = Inr (0, sd)
                \<and> get (n_bound (nodes s ! i)) sd = Inr r)"
  shows "Build_node rd lg s i = Some (Inr (finish_node (lg i) i s))"
  using assms by (subst Build_node.simps) (auto simp add: get_in)

lemma Build_node_error:
  assumes "i < length (nodes s)" and "n_count (nodes s ! i) > leaf_size s"
    and "widest_loop (n_bound (nodes s ! i)) [0..<dim s] (- 1, BIG_BAD_NUMBER) = Inl e
         \<or> (\<exists>mw sd. widest_loop (n_bound (nodes s ! i)) [0..<dim s] (- 1, BIG_BAD_NUMBER) = Inr (mw, sd)
                \<and> get (n_bound (nodes s ! i)) sd = Inl e)"
  shows "Build_node rd lg s i = Some (Inl e)"
  using assms by (subst Build_node.simps) (auto simp add: get_in)

lemma Build_node_split:
  assumes "i < length (nodes s)" and "n_count (nodes s ! i) > leaf_size s"
    and "widest_loop (n_bound (nodes s ! i)) [0..<dim s] (- 1, BIG_BAD_NUMBER) = Inr (mw, sd)"
    and "get (n_bound (nodes s ! i)) sd = Inr r" and "mw \<noteq> 0"
  shows "Build_node rd lg s i =
     bind_result
       (Partition rd sd (mid_double r) (n_begin (nodes s ! i)) (n_count (nodes s ! i))
          (points s) (point_infos s) (Bound_Init (dim s)) (Bound_Init (dim s)))
       (\<lambda>(split_col, pts', infos', lb, rb).
          if split_col - n_begin (nodes s ! i) = 0 \<or> n_end (nodes s ! i) - split_col = 0
          then Some (Inl AssertionFailed)
          else
            bind_result
              (Build_node rd lg
                 (s\<lparr>points := pts', point_infos := infos',
                    nodes := nodes s @
                      [mk_node lb (n_begin (nodes s ! i)) (split_col - n_begin (nodes s ! i)),
                       mk_node rb split_col (n_end (nodes s ! i) - split_col)]\<rparr>)
                 (length (nodes s)))
              (\<lambda>s2. bind_result (Build_node rd lg s2 (Suc (length (nodes s))))
                 (\<lambda>s3. Some (Inr (s3\<lparr>nodes := (nodes s3)
                     [i := set_child 1 (Suc (length (nodes s)))
                             (set_child 0 (length (nodes s)) (nodes s3 ! i))]\<rparr>)))))"
  using assms
  by (subst Build_node.simps)
     (auto simp add: get_in Alloc_def Let_def Node_Init_def Node_new_def mk_node_def
        list_update_append intro!: arg_cong2 [where f = bind_result] split: prod.splits)

definition node_pre :: "'info KdTreeMidpointBuilder \<Rightarrow> nat \<Rightarrow> bool" where
  "node_pre s i =
     (i < length (nodes s) \<and> list_all (\<lambda>v. length v = dim s) (points s)
      \<and> node_tight (dim s) (points s) (nodes s ! i)
      \<and> n_child0 (nodes s ! i) = None \<and> n_child1 (nodes s ! i) = None)"

definition node_post ::
  "'info KdTreeMidpointBuilder \<Rightarrow> nat \<Rightarrow> 'info KdTreeMidpointBuilder \<Rightarrow> bool" where
  "node_post s i s' =
     (dim s' = dim s \<and> leaf_size s' = leaf_size s
      \<and> length (points s') = length (points s) \<and> set (points s') = set (points s)
      \<and> (\<forall>j. \<not> (n_begin (nodes s ! i) \<le> int j \<and> int j < n_end (nodes s ! i))
             \<longrightarrow> points s' ! j = points s ! j)
      \<and> slice_set (points s') (n_begin (nodes s ! i)) (n_end (nodes s ! i))
          = slice_set (points s) (n_begin (nodes s ! i)) (n_end (nodes s ! i))
      \<and> (\<exists>n' new. nodes s' = (nodes s)[i := n'] @ new \<and> same_range n' (nodes s ! i)
            \<and> (\<forall>m\<in>set (n' # new).
                  n_begin (nodes s ! i) \<le> n_begin m \<and> n_end m \<le> n_end (nodes s ! i)
                  \<and> node_tight (dim s) (points s') m \<and> children_ok (nodes s') m)
            \<and> leaf_total (n' # new) = n_count (nodes s ! i)))"

lemma finish_node_post:
  assumes "node_pre s i"
  shows "node_post s i (finish_node l i s)"
proof -
  let ?n' = "if l then set_leaf (nodes s ! i) else nodes s ! i"
  have "nodes (finish_node l i s) = (nodes s)[i := ?n'] @ []"
    by (simp add: finish_node_def)
  moreover have "same_range ?n' (nodes s ! i)"
    by (simp add: same_range_def set_leaf_def)
  moreover have "node_tight (dim s) (points s) ?n'"
    using assms by (simp add: node_pre_def node_tight_def set_leaf_def n_end_def)
  moreover have "children_ok ns ?n'" for ns
    using assms by (simp add: node_pre_def children_ok_def set_leaf_def)
  moreover have "leaf_total [?n'] = n_count (nodes s ! i)"
    using assms by (simp add: node_pre_def set_leaf_def)
  moreover have "n_begin ?n' = n_begin (nodes s ! i)" "n_end ?n' = n_end (nodes s ! i)"
    by (simp_all add: set_leaf_def n_end_def)
  moreover have "points (finish_node l i s) = points s" "dim (finish_node l i s) = dim s"
    "leaf_size (finish_node l i s) = leaf_size s"
    by (simp_all add: finish_node_def)
  ultimately show ?thesis
    unfolding node_post_def by (intro conjI exI [of _ ?n'] exI [of _ "[]"]) simp_all
qed

lemma right_scan_as_written_error:
  "right_scan_as_written pts right = Some y \<Longrightarrow> y = Inl OutOfBounds"
  by (rule right_scan_as_written.raw_induct [where P = "\<lambda>pts right y. y = Inl OutOfBounds"])
     (auto split: sum.splits simp add: StartWrite_Inl)

lemma Partition_error:
  assumes "Partition rd d sv first count' pts infos (Bound_Init dimension) (Bound_Init dimension)
             = Some (Inl e)"
    and "\<forall>v\<in>set pts. length v = dimension" and "d < dimension"
    and "0 \<le> first" and "0 \<le> count'"
  shows "e = OutOfBounds"
proof (cases rd)
  case AsWritten
  with assms(1) show ?thesis
    by (auto simp add: Partition_def Let_def split: sum.splits prod.splits
          dest: left_scan_error right_scan_as_written_error)
next
  case AsIndented
  show ?thesis
  proof (cases "Partition_loop d sv pts infos first (first + count' - 1)
                  (Bound_Init dimension) (Bound_Init dimension)")
    case (Inl e')
    with assms(1) AsIndented show ?thesis
      by (auto simp add: Partition_def Let_def dest: Partition_loop_error)
  next
    case (Inr res)
    obtain pts' infos' left' right' lb' rb' where
      res: "res = (pts', infos', left', right', lb', rb')" by (cases res) auto
    have e: "Bound_Init dimension = bbox dimension {}" by (simp add: bbox_empty)
    from Partition_loop_spec [OF Inr [unfolded res] assms(2,3,4), of "first + count' - 1" "{}" "{}"]
      assms(5) e
    have "left' = right' + 1" by simp
    with assms(1) AsIndented Inr res show ?thesis
      by (simp add: Partition_def Let_def)
  qed
qed

text \<open>
  A split value above the lower end of the split dimension and not above its upper end
  leaves a point on each side.
\<close>

lemma split_nonempty:
  assumes tight: "node_tight dimension pts n"
    and wf: "\<forall>v\<in>set pts. length v = dimension \<and> finite_coords v"
    and g: "get (n_bound n) sd = Inr r" and lohi: "lo r < sv" "sv \<le> hi r"
    and whole: "slice_set pts' (n_begin n) (n_end n) = slice_set pts (n_begin n) (n_end n)"
    and lft: "\<forall>i. n_begin n \<le> i \<and> i < split_col \<longrightarrow> pts' ! nat i ! sd < sv"
    and rgt: "\<forall>i. split_col \<le> i \<and> i < n_end n \<longrightarrow> sv \<le> pts' ! nat i ! sd"
  shows "n_begin n < split_col \<and> split_col < n_end n"
proof -
  let ?S = "slice_set pts (n_begin n) (n_end n)"
  have b: "n_bound n = bbox dimension ?S" and b0: "0 \<le> n_begin n" and c1: "1 \<le> n_count n"
    and e: "n_end n \<le> int (length pts)"
    using tight by (simp_all add: node_tight_def)
  have sd: "sd < dimension" and r: "r = n_bound n ! sd"
    using g b by (auto simp add: get_def split: if_splits)
  have ne: "?S \<noteq> {}"
    using slice_set_mem [of "n_begin n" "n_begin n" "n_end n" pts] c1
    by (auto simp add: n_end_def)
  have sub: "?S \<subseteq> set pts"
    using b0 e by (auto simp add: slice_set_def nat_less_iff)
  have "\<forall>v\<in>?S. length v = dimension \<and> finite_coords v" using wf sub by blast
  from bbox_attained [OF finite_slice_set ne sd this] b r
  obtain p q where p: "p \<in> ?S" "p ! sd = lo r" and q: "q \<in> ?S" "q ! sd = hi r"
    by auto
  from p whole obtain i where i: "n_begin n \<le> i" "i < n_end n" "p = pts' ! nat i"
    by (auto simp add: slice_set_def)
  have "i < split_col" using rgt i p(2) lohi(1) by (metis not_le_imp_less leD)
  from q whole obtain j where j: "n_begin n \<le> j" "j < n_end n" "q = pts' ! nat j"
    by (auto simp add: slice_set_def)
  have "split_col \<le> j" using lft j q(2) lohi(2) by (metis not_le_imp_less leD)
  show ?thesis using \<open>i < split_col\<close> \<open>split_col \<le> j\<close> i j by linarith
qed

lemma Build_node_invariant:
  assumes "Build_node rd lg s i = Some y" and "node_pre s i"
  shows "\<forall>s'. y = Inr s' \<longrightarrow> node_post s i s'"
  using assms
proof (induction "nat (n_count (nodes s ! i))" arbitrary: s i y rule: less_induct)
  case less
  let ?n = "nodes s ! i"
  let ?len = "length (nodes s)"
  let ?b = "n_begin ?n"
  let ?e = "n_end ?n"
  from less.prems(2) have i: "i < ?len" and wf: "\<forall>v\<in>set (points s). length v = dim s"
    and tight: "node_tight (dim s) (points s) ?n"
    and ch: "n_child0 ?n = None" "n_child1 ?n = None"
    by (simp_all add: node_pre_def list_all_iff)
  have b0: "0 \<le> ?b" and c1: "1 \<le> n_count ?n" and e: "?e \<le> int (length (points s))"
    and bnd: "n_bound ?n = bbox (dim s) (slice_set (points s) ?b ?e)"
    using tight by (simp_all add: node_tight_def)
  have ec: "?e = ?b + n_count ?n" by (simp add: n_end_def)
  show ?case
  proof (cases "n_count ?n > leaf_size s")
    case False
    then have "y = Inr (finish_node (lg i) i s)"
      using Build_node_no_split [OF i, of rd lg] less.prems(1) by simp
    then show ?thesis using finish_node_post [OF less.prems(2)] by simp
  next
    case big: True
    show ?thesis
    proof (cases "widest_loop (n_bound ?n) [0..<dim s] (- 1, BIG_BAD_NUMBER)")
      case (Inl e')
      then have "y = Inl e'" using Build_node_error [OF i big, of e' rd lg] less.prems(1) by simp
      then show ?thesis by simp
    next
      case (Inr mwsd)
      then obtain mw sd where
        w: "widest_loop (n_bound ?n) [0..<dim s] (- 1, BIG_BAD_NUMBER) = Inr (mw, sd)"
        by (cases mwsd) simp
      show ?thesis
      proof (cases "get (n_bound ?n) sd")
        case (Inl e')
        then have "y = Inl e'"
          using Build_node_error [OF i big, of e' rd lg] w less.prems(1) by simp
        then show ?thesis by simp
      next
        case r: (Inr r)
        show ?thesis
        proof (cases "mw = 0")
          case True
          then have "y = Inr (finish_node (lg i) i s)"
            using Build_node_no_split [OF i, of rd lg] w r less.prems(1) by auto
          then show ?thesis using finish_node_post [OF less.prems(2)] by simp
        next
          case mw: False
          have sd: "sd < dim s" using r bnd by (auto simp add: get_def split: if_splits)
          have c0: "0 \<le> n_count ?n" using c1 by simp
          note eq = Build_node_split [OF i big w r mw, of rd lg]
          from less.prems(1) [unfolded eq bind_result_Some]
          consider (perr) e' where
              "Partition rd sd (mid_double r) ?b (n_count ?n) (points s) (point_infos s)
                 (Bound_Init (dim s)) (Bound_Init (dim s)) = Some (Inl e')" "y = Inl e'"
            | (pok) split pts' infos' lb rb where
              "Partition rd sd (mid_double r) ?b (n_count ?n) (points s) (point_infos s)
                 (Bound_Init (dim s)) (Bound_Init (dim s))
                 = Some (Inr (split, pts', infos', lb, rb))"
              "(if split - ?b = 0 \<or> ?e - split = 0 then Some (Inl AssertionFailed)
                else bind_result
                  (Build_node rd lg
                     (s\<lparr>points := pts', point_infos := infos',
                        nodes := nodes s @ [mk_node lb ?b (split - ?b), mk_node rb split (?e - split)]\<rparr>)
                     ?len)
                  (\<lambda>s2. bind_result (Build_node rd lg s2 (Suc ?len))
                     (\<lambda>s3. Some (Inr (s3\<lparr>nodes := (nodes s3)
                         [i := set_child 1 (Suc ?len) (set_child 0 ?len (nodes s3 ! i))]\<rparr>)))))
               = Some y"
            by auto
          then show ?thesis
          proof cases
            case perr
            from perr(2) show ?thesis by simp
          next
            case pok
            from Partition_spec [OF pok(1) wf sd b0 c0]
            have P: "?b \<le> split" "split \<le> ?e"
              "\<forall>i. ?b \<le> i \<and> i < split \<longrightarrow> pts' ! nat i ! sd < mid_double r"
              "\<forall>i. split \<le> i \<and> i < ?e \<longrightarrow> mid_double r \<le> pts' ! nat i ! sd"
              "lb = bbox (dim s) (slice_set pts' ?b split)"
              "rb = bbox (dim s) (slice_set pts' split ?e)"
              "length pts' = length (points s)" "set pts' = set (points s)"
              "\<forall>j. \<not> (?b \<le> int j \<and> int j < ?e) \<longrightarrow> pts' ! j = points s ! j"
              "slice_set pts' ?b ?e = slice_set (points s) ?b ?e"
              by (simp_all add: ec)
            show ?thesis
            proof (cases "split - ?b = 0 \<or> ?e - split = 0")
              case True
              with pok(2) have "y = Inl AssertionFailed" by simp
              then show ?thesis by simp
            next
              case ne: False
              with P(1,2) have cl: "1 \<le> split - ?b" and cr: "1 \<le> ?e - split" by simp_all
              define L where "L = mk_node lb ?b (split - ?b)"
              define R where "R = mk_node rb split (?e - split)"
              define s1 where "s1 = s\<lparr>points := pts', point_infos := infos',
                        nodes := nodes s @ [L, R]\<rparr>"
              have s1: "points s1 = pts'" "dim s1 = dim s" "leaf_size s1 = leaf_size s"
                "nodes s1 = nodes s @ [L, R]" "nodes s1 ! ?len = L"
                by (simp_all add: s1_def)
              have Lf: "n_begin L = ?b" "n_count L = split - ?b" "n_end L = split" "n_bound L = lb"
                "n_child0 L = None" "n_child1 L = None"
                by (simp_all add: L_def mk_node_def n_end_def)
              have Rf: "n_begin R = split" "n_count R = ?e - split" "n_end R = ?e" "n_bound R = rb"
                "n_child0 R = None" "n_child1 R = None"
                by (simp_all add: R_def mk_node_def n_end_def)
              from pok(2) ne have chain: "bind_result (Build_node rd lg s1 ?len)
                  (\<lambda>s2. bind_result (Build_node rd lg s2 (Suc ?len))
                     (\<lambda>s3. Some (Inr (s3\<lparr>nodes := (nodes s3)
                         [i := set_child 1 (Suc ?len) (set_child 0 ?len (nodes s3 ! i))]\<rparr>))))
                  = Some y"
                by (simp add: s1_def L_def R_def)
              have wf1: "list_all (\<lambda>v. length v = dim s) pts'"
                using wf P(8) by (simp add: list_all_iff)
              have pre1: "node_pre s1 ?len"
                using wf1 b0 cl P(2,5,7) e by (simp add: node_pre_def s1 node_tight_def Lf)
              have m1: "nat (n_count (nodes s1 ! ?len)) < nat (n_count ?n)"
                using cl cr by (simp add: s1 Lf ec)
              from chain [unfolded bind_result_Some]
              consider (e1) e1 where "Build_node rd lg s1 ?len = Some (Inl e1)" "y = Inl e1"
                | (ok1) s2 where "Build_node rd lg s1 ?len = Some (Inr s2)"
                    "bind_result (Build_node rd lg s2 (Suc ?len))
                       (\<lambda>s3. Some (Inr (s3\<lparr>nodes := (nodes s3)
                         [i := set_child 1 (Suc ?len) (set_child 0 ?len (nodes s3 ! i))]\<rparr>)))
                     = Some y"
                by auto
              then show ?thesis
              proof cases
                case e1
                from e1(2) show ?thesis by simp
              next
                case ok1
                from less.hyps [OF m1 ok1(1) pre1] have "node_post s1 ?len s2" by simp
                then obtain L' newL where
                  q1: "dim s2 = dim s" "leaf_size s2 = leaf_size s"
                    "length (points s2) = length pts'" "set (points s2) = set pts'"
                    "\<forall>j. \<not> (?b \<le> int j \<and> int j < split) \<longrightarrow> points s2 ! j = pts' ! j"
                    "slice_set (points s2) ?b split = slice_set pts' ?b split"
                    "nodes s2 = (nodes s1)[?len := L'] @ newL" "same_range L' L"
                    "\<forall>m\<in>set (L' # newL). ?b \<le> n_begin m \<and> n_end m \<le> split
                        \<and> node_tight (dim s) (points s2) m \<and> children_ok (nodes s2) m"
                    "leaf_total (L' # newL) = split - ?b"
                  unfolding node_post_def s1(1,2,3,5) Lf by blast
                have n2: "nodes s2 = nodes s @ [L', R] @ newL"
                  using q1(7) by (simp add: s1 list_update_append)
                then have n2R: "nodes s2 ! Suc ?len = R" "Suc ?len < length (nodes s2)"
                  by (simp_all add: nth_append)
                have sl2: "slice_set (points s2) split ?e = slice_set pts' split ?e"
                  using q1(5) P(1) b0 by (intro slice_set_cong) auto
                have pre2: "node_pre s2 (Suc ?len)"
                  using n2R(2) wf1 q1(3,4) P(1,2,6,7) b0 cr e sl2
                  by (simp add: node_pre_def n2R q1(1) node_tight_def Rf list_all_iff)
                have m2: "nat (n_count (nodes s2 ! Suc ?len)) < nat (n_count ?n)"
                  using cl cr by (simp add: n2R Rf ec)
                from ok1(2) [unfolded bind_result_Some]
                consider (e2) e2 where "Build_node rd lg s2 (Suc ?len) = Some (Inl e2)" "y = Inl e2"
                  | (ok2) s3 where "Build_node rd lg s2 (Suc ?len) = Some (Inr s3)"
                      "y = Inr (s3\<lparr>nodes := (nodes s3)
                         [i := set_child 1 (Suc ?len) (set_child 0 ?len (nodes s3 ! i))]\<rparr>)"
                  by auto
                then show ?thesis
                proof cases
                  case e2
                  from e2(2) show ?thesis by simp
                next
                  case ok2
                  from less.hyps [OF m2 ok2(1) pre2] have "node_post s2 (Suc ?len) s3" by simp
                  then obtain R' newR where
                    q2: "dim s3 = dim s" "leaf_size s3 = leaf_size s"
                      "length (points s3) = length pts'" "set (points s3) = set pts'"
                      "\<forall>j. \<not> (split \<le> int j \<and> int j < ?e) \<longrightarrow> points s3 ! j = points s2 ! j"
                      "slice_set (points s3) split ?e = slice_set (points s2) split ?e"
                      "nodes s3 = (nodes s2)[Suc ?len := R'] @ newR" "same_range R' R"
                      "\<forall>m\<in>set (R' # newR). split \<le> n_begin m \<and> n_end m \<le> ?e
                          \<and> node_tight (dim s) (points s3) m \<and> children_ok (nodes s3) m"
                      "leaf_total (R' # newR) = ?e - split"
                    unfolding node_post_def n2R(1) q1(1,2,3,4) Rf by blast
                  have n3: "nodes s3 = nodes s @ [L', R'] @ newL @ newR"
                    using q2(7) by (simp add: n2 list_update_append)
                  define n' where "n' = set_child 1 (Suc ?len) (set_child 0 ?len ?n)"
                  define s' where "s' = s3\<lparr>nodes := (nodes s3)[i := n']\<rparr>"
                  have n3i: "nodes s3 ! i = ?n" using i by (simp add: n3 nth_append)
                  have y: "y = Inr s'" using ok2(2) by (simp add: s'_def n'_def n3i)
                  have ns': "nodes s' = (nodes s)[i := n'] @ ([L', R'] @ newL @ newR)"
                    using i by (simp add: s'_def n3 list_update_append)
                  have sr: "same_range n' ?n" by (simp add: n'_def set_child_def same_range_def)
                  have n'f: "n_begin n' = ?b" "n_end n' = ?e" "n_count n' = n_count ?n"
                    "n_bound n' = n_bound ?n" "n_child0 n' = Some ?len" "n_child1 n' = Some (Suc ?len)"
                    by (simp_all add: n'_def set_child_def n_end_def)
                  have ps': "points s' = points s3" "dim s' = dim s" "leaf_size s' = leaf_size s"
                    by (simp_all add: s'_def q2)
                  have frame: "\<forall>j. \<not> (?b \<le> int j \<and> int j < ?e) \<longrightarrow> points s3 ! j = points s ! j"
                    using q2(5) q1(5) P(9) P(1,2) by auto
                  have slL: "slice_set (points s3) ?b split = slice_set pts' ?b split"
                  proof -
                    have "slice_set (points s3) ?b split = slice_set (points s2) ?b split"
                      using q2(5) b0 by (intro slice_set_cong) auto
                    then show ?thesis using q1(6) by simp
                  qed
                  have slR: "slice_set (points s3) split ?e = slice_set pts' split ?e"
                    using q2(6) sl2 by simp
                  have whole: "slice_set (points s3) ?b ?e = slice_set (points s) ?b ?e"
                    using slice_set_split [OF P(1,2), of "points s3"]
                      slice_set_split [OF P(1,2), of pts'] slL slR P(10) by simp
                  have ext23: "extends (nodes s2) (nodes s3)"
                    unfolding q2(7) using n2R q2(8) by (intro extends_update_append) simp_all
                  have ext3': "extends (nodes s3) (nodes s')"
                  proof -
                    have "nodes s' = (nodes s3)[i := n'] @ []" by (simp add: s'_def)
                    moreover have "i < length (nodes s3)" using i by (simp add: n3)
                    moreover have "same_range n' (nodes s3 ! i)" using sr n3i by simp
                    ultimately show ?thesis using extends_update_append by metis
                  qed
                  have good_n': "node_tight (dim s) (points s') n'"
                    unfolding node_tight_def n'f ps'
                    using b0 c1 e q2(3) P(7) bnd whole by simp
                  have L'f: "n_begin L' = ?b" "n_end L' = split" "n_count L' = split - ?b"
                    using q1(8) Lf same_range_n_end [OF q1(8)] by (simp_all add: same_range_def)
                  have R'f: "n_begin R' = split" "n_end R' = ?e" "n_count R' = ?e - split"
                    using q2(8) Rf same_range_n_end [OF q2(8)] by (simp_all add: same_range_def)
                  have ch_n': "children_ok (nodes s') n'"
                    unfolding children_ok_def n'f
                    using i cl cr by (simp add: ns' nth_append L'f R'f)
                  have goodL: "?b \<le> n_begin m \<and> n_end m \<le> ?e
                        \<and> node_tight (dim s) (points s') m \<and> children_ok (nodes s') m"
                    if "m \<in> set (L' # newL)" for m
                  proof -
                    from q1(9) that have m: "?b \<le> n_begin m" "n_end m \<le> split"
                      "node_tight (dim s) (points s2) m" "children_ok (nodes s2) m" by auto
                    have "node_tight (dim s) (points s3) m"
                    proof (rule node_tight_frame [OF m(3)])
                      show "length (points s3) = length (points s2)" using q2(3) q1(3) by simp
                      show "\<forall>j. n_begin m \<le> int j \<and> int j < n_end m
                              \<longrightarrow> points s3 ! j = points s2 ! j"
                      proof (intro allI impI)
                        fix j assume "n_begin m \<le> int j \<and> int j < n_end m"
                        then have "\<not> (split \<le> int j \<and> int j < ?e)" using m(2) by linarith
                        then show "points s3 ! j = points s2 ! j" using q2(5) by blast
                      qed
                    qed
                    moreover have "children_ok (nodes s') m"
                      using m(4) extends_trans [OF ext23 ext3'] by (rule children_ok_extends)
                    ultimately show ?thesis using m P(2) by (simp add: ps')
                  qed
                  have goodR: "?b \<le> n_begin m \<and> n_end m \<le> ?e
                        \<and> node_tight (dim s) (points s') m \<and> children_ok (nodes s') m"
                    if "m \<in> set (R' # newR)" for m
                  proof -
                    from q2(9) that have m: "split \<le> n_begin m" "n_end m \<le> ?e"
                      "node_tight (dim s) (points s3) m" "children_ok (nodes s3) m" by auto
                    have "children_ok (nodes s') m"
                      using m(4) ext3' by (rule children_ok_extends)
                    then show ?thesis using m P(1) by (simp add: ps')
                  qed
                  have good: "\<forall>m\<in>set (n' # [L', R'] @ newL @ newR).
                        ?b \<le> n_begin m \<and> n_end m \<le> ?e
                        \<and> node_tight (dim s) (points s') m \<and> children_ok (nodes s') m"
                    using goodL goodR good_n' ch_n' n'f by auto
                  have lt: "leaf_total (n' # [L', R'] @ newL @ newR) = n_count ?n"
                    using q1(10) q2(10) n'f by (simp add: ec split: if_splits)
                  have "node_post s i s'"
                    unfolding node_post_def
                    using q2(3,4) P(7,8) frame whole ns' sr good lt
                    by (intro conjI exI [of _ n'] exI [of _ "[L', R'] @ newL @ newR"])
                       (simp_all add: ps')
                  then show ?thesis using y by simp
                qed
              qed
            qed
          qed
        qed
      qed
    qed
  qed
qed

subsection \<open>The whole build\<close>

lemma FindBoundingBox_loop_spec:
  assumes "FindBoundingBox_loop pts i n b0 = Inr b"
    and "\<forall>v\<in>set pts. length v = dimension" and "finite A" and "b0 = bbox dimension A"
  shows "b = bbox dimension (A \<union> slice_set pts i (i + int n))"
  using assms
proof (induction n arbitrary: i b0 A)
  case 0
  then show ?case by simp
next
  case (Suc n)
  from Suc.prems(1) obtain v where v: "StartWrite pts i = Inr v"
    and rec: "FindBoundingBox_loop pts (i + 1) n (Bound_union_vector b0 v) = Inr b"
    by (auto split: sum.splits)
  from v have vi: "in_range pts i" "v = pts ! nat i" by (simp_all add: StartWrite_Inr)
  then have "length v = dimension" using Suc.prems(2) by (simp add: in_range_nth_mem)
  then have "Bound_union_vector b0 v = bbox dimension (insert v A)"
    using Suc.prems(3,4) by (simp add: bbox_insert)
  from Suc.IH [OF rec Suc.prems(2) _ this] Suc.prems(3)
  have "b = bbox dimension (insert v A \<union> slice_set pts (i + 1) (i + 1 + int n))" by simp
  moreover have "slice_set pts i (i + int (Suc n)) = insert v (slice_set pts (i + 1) (i + 1 + int n))"
    using slice_set_first [of i "i + int (Suc n)" pts] vi by (simp add: add.assoc)
  ultimately show ?case by simp
qed

lemma FindBoundingBox_loop_error: "FindBoundingBox_loop pts i n b0 = Inl e \<Longrightarrow> e = OutOfBounds"
  by (induction n arbitrary: i b0) (auto split: sum.splits dest: StartWrite_error)

definition tree_ok :: "Vector list \<Rightarrow> 'info KdTreeMidpointBuilder \<Rightarrow> bool" where
  "tree_ok pts s' =
     (set (points s') = set pts \<and> length (points s') = length pts
      \<and> list_all (\<lambda>m. 0 \<le> n_begin m \<and> n_end m \<le> int (length pts)
                     \<and> node_tight (dim s') (points s') m \<and> children_ok (nodes s') m) (nodes s')
      \<and> leaf_total (nodes s') = int (length pts))"

lemma Build_invariant:
  assumes "Build rd lg ls pts infos = Some y"
    and "list_all (\<lambda>v. length v = length (hd pts)) pts"
  shows "\<forall>s'. y = Inr s' \<longrightarrow> tree_ok pts s' \<and> dim s' = length (hd pts) \<and> pts \<noteq> []"
proof (cases "pts = []")
  case True
  with assms(1) show ?thesis by (auto simp add: Build_def StartWrite_def in_range_def)
next
  case ne: False
  then have sw: "StartWrite pts 0 = Inr (hd pts)"
    by (simp add: StartWrite_def in_range_def hd_conv_nth)
  let ?dim = "length (hd pts)"
  let ?N = "int (length pts)"
  have wf: "\<forall>v\<in>set pts. length v = ?dim" using assms(2) by (simp add: list_all_iff)
  show ?thesis
  proof (cases "FindBoundingBox pts 0 ?N (Bound_Init ?dim)")
    case (Inl e)
    with assms(1) sw show ?thesis by (auto simp add: Build_def Let_def)
  next
    case (Inr b)
    define s0 :: "'a KdTreeMidpointBuilder" where
      "s0 = \<lparr>points = pts, point_infos = infos,
              nodes = [(Node_Init 0 ?N Node_new)\<lparr>n_bound := b\<rparr>], leaf_size = ls, dim = ?dim\<rparr>"
    have bn: "Build_node rd lg s0 0 = Some y"
      using assms(1) sw Inr by (simp add: Build_def Let_def s0_def)
    have b: "b = bbox ?dim (slice_set pts 0 ?N)"
      using FindBoundingBox_loop_spec [OF Inr [unfolded FindBoundingBox_def] wf, of "{}"]
      by (simp add: bbox_empty)
    have s0: "points s0 = pts" "dim s0 = ?dim" "nodes s0 = [(Node_Init 0 ?N Node_new)\<lparr>n_bound := b\<rparr>]"
      by (simp_all add: s0_def)
    have pre: "node_pre s0 0"
      using ne assms(2) b
      by (simp add: node_pre_def s0 node_tight_def Node_Init_def Node_new_def n_end_def Suc_leI)
    from Build_node_invariant [OF bn pre]
    have inv: "\<forall>s'. y = Inr s' \<longrightarrow> node_post s0 0 s'" .
    have "tree_ok pts s' \<and> dim s' = ?dim" if "y = Inr s'" for s'
    proof -
      from inv that have "node_post s0 0 s'" by simp
      then obtain n' new where
        q: "dim s' = ?dim" "length (points s') = length pts" "set (points s') = set pts"
          "nodes s' = [n'] @ new"
          "\<forall>m\<in>set (n' # new). 0 \<le> n_begin m \<and> n_end m \<le> ?N
              \<and> node_tight ?dim (points s') m \<and> children_ok (nodes s') m"
          "leaf_total (n' # new) = ?N"
        unfolding node_post_def s0
        by (auto simp add: Node_Init_def Node_new_def n_end_def)
      then show ?thesis by (simp add: tree_ok_def list_all_iff)
    qed
    with ne show ?thesis by blast
  qed
qed

lemma FindBoundingBox_loop_unfold:
  "FindBoundingBox_loop pts i n bound =
     (if n = 0 then Inr bound
      else case StartWrite pts i of
             Inl e \<Rightarrow> Inl e
           | Inr v \<Rightarrow> FindBoundingBox_loop pts (i + 1) (n - 1) (Bound_union_vector bound v))"
  by (cases n) (auto split: sum.splits)

lemmas eval_simps = FindBoundingBox_loop_unfold Build_def StartWrite_def get_def in_range_def FindBoundingBox_def
  Bound_Init_def Range_InitEmptySet_def Bound_union_vector_def Range_union_point_def
  Range_Init_def DBL_MAX_def Node_Init_def Node_new_def BIG_BAD_NUMBER_def Let_def
  width_double_def mid_double_def DBL_INF_def Alloc_def finish_node_def set_leaf_def set_child_def n_end_def
  Partition_def swap_at_def bind_result_def upt_rec

subsection \<open>Points and payloads move together\<close>

lemma left_scan_in_range:
  "left_scan d sv pts left right lb = Inr (left', lb') \<Longrightarrow> in_range pts left'"
proof (induction d sv pts left right lb rule: left_scan.induct)
  case (1 d sv pts left right lb)
  from "1.prems" obtain v x where v: "StartWrite pts left = Inr v" and x: "get v d = Inr x"
    by (subst (asm) left_scan.simps) (auto split: sum.splits)
  show ?case
  proof (cases "sv \<le> x \<or> right < left")
    case True
    with "1.prems" v x have "left' = left" by (subst (asm) left_scan.simps) simp
    with v show ?thesis by (simp add: StartWrite_Inr)
  next
    case False
    with "1.prems" v x have
      "left_scan d sv pts (left + 1) right (Bound_union_vector lb v) = Inr (left', lb')"
      by (subst (asm) left_scan.simps) simp
    from "1.IH" [OF v x False this] show ?thesis .
  qed
qed

lemma right_scan_in_range:
  "right_scan d sv pts left right rb = Inr (right', rb') \<Longrightarrow> in_range pts right'"
proof (induction d sv pts left right rb rule: right_scan.induct)
  case (1 d sv pts left right rb)
  from "1.prems" obtain v x where v: "StartWrite pts right = Inr v" and x: "get v d = Inr x"
    by (subst (asm) right_scan.simps) (auto split: sum.splits)
  show ?case
  proof (cases "x < sv \<or> right < left")
    case True
    with "1.prems" v x have "right' = right" by (subst (asm) right_scan.simps) simp
    with v show ?thesis by (simp add: StartWrite_Inr)
  next
    case False
    with "1.prems" v x have
      "right_scan d sv pts left (right - 1) (Bound_union_vector rb v) = Inr (right', rb')"
      by (subst (asm) right_scan.simps) simp
    from "1.IH" [OF v x False this] show ?thesis .
  qed
qed

lemma zip_swap_at:
  assumes "in_range xs a" and "in_range xs b" and "in_range ys a" and "in_range ys b"
  shows "zip (swap_at xs a b) (swap_at ys a b) = swap_at (zip xs ys) a b"
  using assms
  by (intro nth_equalityI)
     (auto simp add: swap_at_def in_range_def nth_list_update nat_less_iff)

lemma mset_swap_at:
  assumes "in_range zs a" and "in_range zs b"
  shows "mset (swap_at zs a b) = mset zs"
  using assms unfolding swap_at_def in_range_def
  by (simp add: mset_swap nat_less_iff)

lemma Partition_loop_payload:
  assumes "Partition_loop d sv pts infos left right lb rb
             = Inr (pts', infos', left', right', lb', rb')"
    and "first \<le> left" and "right \<le> lastp"
  shows "length pts' = length pts \<and> length infos' = length infos
       \<and> (\<forall>j. \<not> (first \<le> int j \<and> int j \<le> lastp) \<longrightarrow> pts' ! j = pts ! j \<and> infos' ! j = infos ! j)
       \<and> mset (zip pts' infos') = mset (zip pts infos)"
  using assms
proof (induction "nat (right + 1 - left)" arbitrary: pts infos left right lb rb rule: less_induct)
  case less
  from Partition_loop_unfold [OF less.prems(1)] obtain left1 lb1 right1 rb1 where
    ls: "left_scan d sv pts left right lb = Inr (left1, lb1)" and
    rs: "right_scan d sv pts left1 right rb = Inr (right1, rb1)" and
    rest: "if left1 > right1 then (pts', infos', left', right', lb', rb') = (pts, infos, left1, right1, lb1, rb1)
        else in_range infos left1 \<and> in_range infos right1
          \<and> Partition_loop d sv (swap_at pts left1 right1) (swap_at infos left1 right1)
               left1 (right1 - 1)
               (Bound_union_vector lb1 (swap_at pts left1 right1 ! nat left1))
               (Bound_union_vector rb1 (swap_at pts left1 right1 ! nat right1))
              = Inr (pts', infos', left', right', lb', rb')"
    by blast
  have ge: "left \<le> left1" "right1 \<le> right"
    using left_scan_ge [OF ls] right_scan_le [OF rs] by simp_all
  have rp: "in_range pts left1" "in_range pts right1"
    using left_scan_in_range [OF ls] right_scan_in_range [OF rs] by simp_all
  show ?case
  proof (cases "left1 > right1")
    case True
    with rest show ?thesis by simp
  next
    case False
    with rest have ri: "in_range infos left1" "in_range infos right1"
      and rec: "Partition_loop d sv (swap_at pts left1 right1) (swap_at infos left1 right1)
               left1 (right1 - 1)
               (Bound_union_vector lb1 (swap_at pts left1 right1 ! nat left1))
               (Bound_union_vector rb1 (swap_at pts left1 right1 ! nat right1))
              = Inr (pts', infos', left', right', lb', rb')"
      by simp_all
    have m: "nat (right1 - 1 + 1 - left1) < nat (right + 1 - left)"
      using False ge by simp
    have p2: "first \<le> left1" "right1 - 1 \<le> lastp" using ge less.prems(2,3) by simp_all
    from less.hyps [OF m rec p2]
    have ih: "length pts' = length pts" "length infos' = length infos"
      "\<forall>j. \<not> (first \<le> int j \<and> int j \<le> lastp) \<longrightarrow>
          pts' ! j = swap_at pts left1 right1 ! j \<and> infos' ! j = swap_at infos left1 right1 ! j"
      "mset (zip pts' infos') = mset (zip (swap_at pts left1 right1) (swap_at infos left1 right1))"
      by simp_all
    have zr: "in_range (zip pts infos) left1" "in_range (zip pts infos) right1"
      using rp ri by (simp_all add: in_range_def min_def)
    have "mset (zip pts' infos') = mset (zip pts infos)"
      using ih(4) zip_swap_at [OF rp ri] mset_swap_at [OF zr] by simp
    moreover have "swap_at pts left1 right1 ! j = pts ! j \<and> swap_at infos left1 right1 ! j = infos ! j"
      if "\<not> (first \<le> int j \<and> int j \<le> lastp)" for j
    proof -
      have "int j \<noteq> left1" "int j \<noteq> right1"
        using that p2 False less.prems(3) ge by linarith+
      then show ?thesis
        using swap_at_nth_nat [OF rp, of j] swap_at_nth_nat [OF ri, of j] by simp
    qed
    ultimately show ?thesis using ih by simp
  qed
qed

lemma mset_slice_frame:
  assumes "length xs' = length xs" and "mset xs' = mset xs"
    and "\<forall>j<length xs. \<not> (f \<le> j \<and> j < f + c) \<longrightarrow> xs' ! j = xs ! j"
  shows "mset (take c (drop f xs')) = mset (take c (drop f xs))"
proof -
  have t: "take f xs' = take f xs"
  proof (rule nth_equalityI)
    show "length (take f xs') = length (take f xs)" using assms(1) by simp
    show "take f xs' ! j = take f xs ! j" if "j < length (take f xs')" for j
      using that assms(1,3) by simp
  qed
  have d: "drop (f + c) xs' = drop (f + c) xs"
  proof (rule nth_equalityI)
    show "length (drop (f + c) xs') = length (drop (f + c) xs)" using assms(1) by simp
    show "drop (f + c) xs' ! j = drop (f + c) xs ! j" if "j < length (drop (f + c) xs')" for j
      using that assms(1,3) by simp
  qed
  have s: "zs = take f zs @ take c (drop f zs) @ drop (f + c) zs" for zs :: "'a list"
  proof -
    have "drop c (drop f zs) = drop (f + c) zs" by (simp add: add.commute)
    then have "drop f zs = take c (drop f zs) @ drop (f + c) zs"
      using append_take_drop_id [of c "drop f zs"] by simp
    then have "take f zs @ drop f zs = take f zs @ take c (drop f zs) @ drop (f + c) zs" by simp
    then show ?thesis by simp
  qed
  have "mset xs' = mset (take f xs') + mset (take c (drop f xs')) + mset (drop (f + c) xs')"
    by (subst s [of xs']) simp
  moreover have "mset xs = mset (take f xs) + mset (take c (drop f xs)) + mset (drop (f + c) xs)"
    by (subst s [of xs]) simp
  ultimately show ?thesis using assms(2) t d by simp
qed

lemma Partition_AsIndented_correct:
  assumes "Partition AsIndented d sv first count' pts infos
             (Bound_Init dimension) (Bound_Init dimension)
           = Some (Inr (split_col, pts', infos', lb', rb'))"
    and "\<forall>v\<in>set pts. length v = dimension" and "d < dimension"
    and "0 \<le> first" and "0 \<le> count'"
  shows "first \<le> split_col \<and> split_col \<le> first + count'
      \<and> (\<forall>i. first \<le> i \<and> i < split_col \<longrightarrow> pts' ! nat i ! d < sv)
      \<and> (\<forall>i. split_col \<le> i \<and> i < first + count' \<longrightarrow> sv \<le> pts' ! nat i ! d)
      \<and> mset (take (nat count') (drop (nat first) (zip pts' infos')))
          = mset (take (nat count') (drop (nat first) (zip pts infos)))"
proof -
  from assms(1) obtain right' where
    loop: "Partition_loop d sv pts infos first (first + count' - 1)
             (Bound_Init dimension) (Bound_Init dimension)
           = Inr (pts', infos', split_col, right', lb', rb')"
    by (auto simp add: Partition_def Let_def split: sum.splits prod.splits if_splits)
  from Partition_loop_payload [OF loop, of first "first + count' - 1"]
  have pl: "length pts' = length pts" "length infos' = length infos"
    "\<forall>j. \<not> (first \<le> int j \<and> int j \<le> first + count' - 1) \<longrightarrow>
        pts' ! j = pts ! j \<and> infos' ! j = infos ! j"
    "mset (zip pts' infos') = mset (zip pts infos)"
    by simp_all
  have "\<forall>j<length (zip pts infos). \<not> (nat first \<le> j \<and> j < nat first + nat count') \<longrightarrow>
          zip pts' infos' ! j = zip pts infos ! j"
  proof (intro allI impI)
    fix j assume l: "j < length (zip pts infos)"
      and "\<not> (nat first \<le> j \<and> j < nat first + nat count')"
    then have j: "\<not> (first \<le> int j \<and> int j \<le> first + count' - 1)"
      using assms(4,5) by linarith
    with pl(3) have "pts' ! j = pts ! j \<and> infos' ! j = infos ! j" by blast
    then show "zip pts' infos' ! j = zip pts infos ! j" using l pl(1,2) by simp
  qed
  from mset_slice_frame [OF _ pl(4) this] pl(1,2)
  have "mset (take (nat count') (drop (nat first) (zip pts' infos')))
          = mset (take (nat count') (drop (nat first) (zip pts infos)))"
    by simp
  with Partition_spec [OF assms] show ?thesis by simp
qed

subsection \<open>The build returns\<close>

text \<open>
  Each scan reads the point at its cursor before it compares the cursors, so it returns
  only if it meets a stopping index inside the array: a point on the other side of the
  split value, or the index one past the other cursor.
\<close>

lemma left_scan_returns:
  assumes "\<forall>v\<in>set pts. length v = dimension" and "d < dimension"
    and "left \<le> j" and "\<forall>i. left \<le> i \<and> i \<le> j \<longrightarrow> in_range pts i"
    and "sv \<le> pts ! nat j ! d \<or> right < j"
  shows "\<exists>left' lb'. left_scan d sv pts left right lb = Inr (left', lb')
       \<and> left \<le> left' \<and> left' \<le> j
       \<and> (\<forall>i. left \<le> i \<and> i < left' \<longrightarrow> pts ! nat i ! d < sv)
       \<and> (sv \<le> pts ! nat left' ! d \<or> right < left')"
  using assms
proof (induction "nat (j - left)" arbitrary: left lb rule: less_induct)
  case less
  have r: "in_range pts left" using less.prems(3,4) by simp
  then have sw: "StartWrite pts left = Inr (pts ! nat left)" by (simp add: StartWrite_def)
  have "length (pts ! nat left) = dimension" using r less.prems(1) by (simp add: in_range_nth_mem)
  then have g: "get (pts ! nat left) d = Inr (pts ! nat left ! d)"
    using less.prems(2) by (simp add: get_def)
  show ?case
  proof (cases "sv \<le> pts ! nat left ! d \<or> right < left")
    case True
    then have "left_scan d sv pts left right lb = Inr (left, lb)"
      using sw g by (subst left_scan.simps) simp
    then show ?thesis using less.prems(3) True by simp
  next
    case False
    then have e: "left_scan d sv pts left right lb
        = left_scan d sv pts (left + 1) right (Bound_union_vector lb (pts ! nat left))"
      using sw g by (subst left_scan.simps) simp
    have "left \<noteq> j" using False less.prems(5) by auto
    then have lt: "left + 1 \<le> j" using less.prems(3) by simp
    then have m: "nat (j - (left + 1)) < nat (j - left)" by simp
    have "\<forall>i. left + 1 \<le> i \<and> i \<le> j \<longrightarrow> in_range pts i" using less.prems(4) by simp
    from less.hyps [OF m less.prems(1,2) lt this less.prems(5)]
    obtain left' lb' where
      h: "left_scan d sv pts (left + 1) right (Bound_union_vector lb (pts ! nat left)) = Inr (left', lb')"
        "left + 1 \<le> left'" "left' \<le> j"
        "\<forall>i. left + 1 \<le> i \<and> i < left' \<longrightarrow> pts ! nat i ! d < sv"
        "sv \<le> pts ! nat left' ! d \<or> right < left'"
      by blast
    have "\<forall>i. left \<le> i \<and> i < left' \<longrightarrow> pts ! nat i ! d < sv"
    proof (intro allI impI)
      fix i assume "left \<le> i \<and> i < left'"
      then have "i = left \<or> (left + 1 \<le> i \<and> i < left')" by linarith
      then show "pts ! nat i ! d < sv" using h(4) False by auto
    qed
    then show ?thesis unfolding e using h by simp
  qed
qed

lemma right_scan_returns:
  assumes "\<forall>v\<in>set pts. length v = dimension" and "d < dimension"
    and "j \<le> right" and "\<forall>i. j \<le> i \<and> i \<le> right \<longrightarrow> in_range pts i"
    and "pts ! nat j ! d < sv \<or> j < left"
  shows "\<exists>right' rb'. right_scan d sv pts left right rb = Inr (right', rb')
       \<and> j \<le> right' \<and> right' \<le> right
       \<and> (\<forall>i. right' < i \<and> i \<le> right \<longrightarrow> sv \<le> pts ! nat i ! d)
       \<and> (pts ! nat right' ! d < sv \<or> right' < left)"
  using assms
proof (induction "nat (right - j)" arbitrary: right rb rule: less_induct)
  case less
  have r: "in_range pts right" using less.prems(3,4) by simp
  then have sw: "StartWrite pts right = Inr (pts ! nat right)" by (simp add: StartWrite_def)
  have "length (pts ! nat right) = dimension" using r less.prems(1) by (simp add: in_range_nth_mem)
  then have g: "get (pts ! nat right) d = Inr (pts ! nat right ! d)"
    using less.prems(2) by (simp add: get_def)
  show ?case
  proof (cases "pts ! nat right ! d < sv \<or> right < left")
    case True
    then have "right_scan d sv pts left right rb = Inr (right, rb)"
      using sw g by (subst right_scan.simps) simp
    then show ?thesis using less.prems(3) True by simp
  next
    case False
    then have e: "right_scan d sv pts left right rb
        = right_scan d sv pts left (right - 1) (Bound_union_vector rb (pts ! nat right))"
      using sw g by (subst right_scan.simps) simp
    have "right \<noteq> j" using False less.prems(5) by auto
    then have lt: "j \<le> right - 1" using less.prems(3) by simp
    then have m: "nat (right - 1 - j) < nat (right - j)" by simp
    have "\<forall>i. j \<le> i \<and> i \<le> right - 1 \<longrightarrow> in_range pts i" using less.prems(4) by simp
    from less.hyps [OF m less.prems(1,2) lt this less.prems(5)]
    obtain right' rb' where
      h: "right_scan d sv pts left (right - 1) (Bound_union_vector rb (pts ! nat right)) = Inr (right', rb')"
        "j \<le> right'" "right' \<le> right - 1"
        "\<forall>i. right' < i \<and> i \<le> right - 1 \<longrightarrow> sv \<le> pts ! nat i ! d"
        "pts ! nat right' ! d < sv \<or> right' < left"
      by blast
    have "\<forall>i. right' < i \<and> i \<le> right \<longrightarrow> sv \<le> pts ! nat i ! d"
    proof (intro allI impI)
      fix i assume "right' < i \<and> i \<le> right"
      then have "i = right \<or> (right' < i \<and> i \<le> right - 1)" by linarith
      then show "sv \<le> pts ! nat i ! d" using h(4) False by auto
    qed
    then show ?thesis unfolding e using h by simp
  qed
qed

lemma Partition_loop_returns:
  assumes "\<forall>v\<in>set pts. length v = dimension" and "d < dimension"
    and "0 \<le> first" and "first \<le> left" and "left \<le> right + 1" and "right \<le> lastp"
    and "lastp < int (length pts)" and "length pts \<le> length infos"
    and "\<forall>i. first \<le> i \<and> i < left \<longrightarrow> pts ! nat i ! d < sv"
    and "\<forall>i. right < i \<and> i \<le> lastp \<longrightarrow> sv \<le> pts ! nat i ! d"
    and "\<exists>j. first \<le> j \<and> j \<le> lastp \<and> sv \<le> pts ! nat j ! d"
    and "\<exists>j. first \<le> j \<and> j \<le> lastp \<and> pts ! nat j ! d < sv"
  shows "\<exists>res. Partition_loop d sv pts infos left right lb rb = Inr res"
  using assms
proof (induction "nat (right + 1 - left)" arbitrary: pts infos left right lb rb rule: less_induct)
  case less
  note wf = less.prems(1,2)
  have rng: "in_range pts i" if "first \<le> i" "i \<le> lastp" for i
    using that less.prems(3,7) by (simp add: in_range_def)
  have rngi: "in_range infos i" if "first \<le> i" "i \<le> lastp" for i
    using that less.prems(3,7,8) by (simp add: in_range_def)
  obtain j where j: "left \<le> j" "j \<le> lastp" "sv \<le> pts ! nat j ! d \<or> right < j"
    "j \<le> right + 1"
  proof (cases "right < lastp")
    case True
    then show ?thesis using that [of "right + 1"] less.prems(5) by simp
  next
    case False
    from less.prems(11) obtain j0 where j0: "first \<le> j0" "j0 \<le> lastp" "sv \<le> pts ! nat j0 ! d"
      by blast
    have "left \<le> j0" using less.prems(9) j0 by (meson not_le_imp_less leD)
    then show ?thesis using that [of j0] j0 False less.prems(6) by simp
  qed
  have "\<forall>i. left \<le> i \<and> i \<le> j \<longrightarrow> in_range pts i"
    using rng j(2) less.prems(4) by simp
  from left_scan_returns [OF wf j(1) this j(3), of lb]
  obtain left1 lb1 where
    ls: "left_scan d sv pts left right lb = Inr (left1, lb1)" "left \<le> left1" "left1 \<le> j"
      "\<forall>i. left \<le> i \<and> i < left1 \<longrightarrow> pts ! nat i ! d < sv"
      "sv \<le> pts ! nat left1 ! d \<or> right < left1"
    by blast
  have l1r: "left1 \<le> right + 1" using ls(3) j(4) by simp
  obtain k where k: "first \<le> k" "k \<le> right" "pts ! nat k ! d < sv \<or> k < left1"
  proof (cases "first < left1")
    case True
    then show ?thesis using that [of "left1 - 1"] l1r by simp
  next
    case False
    from less.prems(12) obtain k0 where k0: "first \<le> k0" "k0 \<le> lastp" "pts ! nat k0 ! d < sv"
      by blast
    have "k0 \<le> right" using less.prems(10) k0 by (meson not_le_imp_less leD)
    then show ?thesis using that [of k0] k0 by simp
  qed
  have "\<forall>i. k \<le> i \<and> i \<le> right \<longrightarrow> in_range pts i"
    using rng k(1) less.prems(6) by simp
  from right_scan_returns [OF wf k(2) this k(3), of rb]
  obtain right1 rb1 where
    rs: "right_scan d sv pts left1 right rb = Inr (right1, rb1)" "k \<le> right1" "right1 \<le> right"
      "\<forall>i. right1 < i \<and> i \<le> right \<longrightarrow> sv \<le> pts ! nat i ! d"
      "pts ! nat right1 ! d < sv \<or> right1 < left1"
    by blast
  show ?case
  proof (cases "left1 > right1")
    case True
    then show ?thesis using ls(1) rs(1) by (subst Partition_loop.simps) simp
  next
    case False
    then have le: "left1 \<le> right1" by simp
    have b: "first \<le> left1" "left1 \<le> lastp" "first \<le> right1" "right1 \<le> lastp"
      using less.prems(4,6) ls(2) rs(3) le by simp_all
    have ir: "in_range pts left1" "in_range pts right1" "in_range infos left1" "in_range infos right1"
      using rng rngi b by simp_all
    let ?pts = "swap_at pts left1 right1"
    let ?infos = "swap_at infos left1 right1"
    have big: "sv \<le> pts ! nat left1 ! d" using ls(5) le rs(3) by simp
    have small: "pts ! nat right1 ! d < sv" using rs(5) le by simp
    have nth: "?pts ! nat i = (if i = right1 then pts ! nat left1
        else if i = left1 then pts ! nat right1 else pts ! nat i)" if "0 \<le> i" for i
      using swap_at_nth [OF ir(1,2) that] .
    have e: "Partition_loop d sv pts infos left right lb rb
        = Partition_loop d sv ?pts ?infos left1 (right1 - 1)
            (Bound_union_vector lb1 (?pts ! nat left1)) (Bound_union_vector rb1 (?pts ! nat right1))"
      using ls(1) rs(1) False ir by (subst Partition_loop.simps) (simp add: Let_def)
    have m: "nat (right1 - 1 + 1 - left1) < nat (right + 1 - left)"
      using le ls(2) rs(3) by simp
    have wf': "\<forall>v\<in>set ?pts. length v = dimension"
      using wf(1) swap_at_set [OF ir(1,2)] by simp
    have I1: "\<forall>i. first \<le> i \<and> i < left1 \<longrightarrow> ?pts ! nat i ! d < sv"
    proof (intro allI impI)
      fix i assume i: "first \<le> i \<and> i < left1"
      then have "pts ! nat i ! d < sv"
        using less.prems(9) ls(4) by (cases "i < left") simp_all
      then show "?pts ! nat i ! d < sv" using i le less.prems(3) by (simp add: nth)
    qed
    have I2: "\<forall>i. right1 - 1 < i \<and> i \<le> lastp \<longrightarrow> sv \<le> ?pts ! nat i ! d"
    proof (intro allI impI)
      fix i assume i: "right1 - 1 < i \<and> i \<le> lastp"
      show "sv \<le> ?pts ! nat i ! d"
      proof (cases "i = right1")
        case True
        then show ?thesis using big b less.prems(3) by (simp add: nth)
      next
        case False
        then have gt: "right1 < i" using i by simp
        then have "sv \<le> pts ! nat i ! d"
          using less.prems(10) rs(4) i by (cases "i \<le> right") simp_all
        then show ?thesis using gt le b less.prems(3) by (simp add: nth)
      qed
    qed
    have E1: "\<exists>j. first \<le> j \<and> j \<le> lastp \<and> sv \<le> ?pts ! nat j ! d"
      using b big less.prems(3) by (intro exI [of _ right1]) (simp add: nth)
    have E2: "\<exists>j. first \<le> j \<and> j \<le> lastp \<and> ?pts ! nat j ! d < sv"
      using b small less.prems(3) by (intro exI [of _ left1]) (simp add: nth)
    have "\<exists>res. Partition_loop d sv ?pts ?infos left1 (right1 - 1)
            (Bound_union_vector lb1 (?pts ! nat left1)) (Bound_union_vector rb1 (?pts ! nat right1))
          = Inr res"
      using less.prems(3,7,8) b le
      by (intro less.hyps [OF m wf' wf(2) _ _ _ _ _ _ I1 I2 E1 E2]) simp_all
    then show ?thesis unfolding e .
  qed
qed

text \<open>
  In the reading \<open>AsIndented\<close> the partition returns when the range holds a point below the
  split value and a point at or above it. Without one of them a scan runs off the range:
  it reads the point at \<open>first - 1\<close> or at \<open>first + count\<close>, outside the array when the
  range touches its end.
\<close>

lemma Partition_returns:
  assumes wf: "\<forall>v\<in>set pts. length v = dimension" and d: "d < dimension"
    and f0: "0 \<le> first" and c0: "0 \<le> count'"
    and e: "first + count' \<le> int (length pts)" and li: "length pts \<le> length infos"
    and E1: "\<exists>j. first \<le> j \<and> j < first + count' \<and> sv \<le> pts ! nat j ! d"
    and E2: "\<exists>j. first \<le> j \<and> j < first + count' \<and> pts ! nat j ! d < sv"
  shows "\<exists>split_col pts' infos' lb' rb'.
     Partition AsIndented d sv first count' pts infos (Bound_Init dimension) (Bound_Init dimension)
       = Some (Inr (split_col, pts', infos', lb', rb'))
     \<and> length infos' = length infos"
proof -
  let ?last = "first + count' - 1"
  have "\<exists>res. Partition_loop d sv pts infos first ?last (Bound_Init dimension) (Bound_Init dimension)
          = Inr res"
    using c0 e E1 E2
    by (intro Partition_loop_returns [OF wf d f0 _ _ _ _ li, of _ _ ?last])
       (simp_all add: zle_diff1_eq)
  then obtain pts' infos' left' right' lb' rb' where
    loop: "Partition_loop d sv pts infos first ?last (Bound_Init dimension) (Bound_Init dimension)
          = Inr (pts', infos', left', right', lb', rb')"
    by (metis prod_cases6)
  have be: "Bound_Init dimension = bbox dimension {}" by (simp add: bbox_empty)
  from Partition_loop_spec [OF loop wf d f0, of ?last "{}" "{}"] c0 be
  have "left' = right' + 1" by simp
  moreover from Partition_loop_payload [OF loop, of first ?last]
  have "length infos' = length infos" by simp
  ultimately show ?thesis using loop by (simp add: Partition_def Let_def)
qed

lemma Partition_AsIndented_reads_below_first:
  "Partition AsIndented 0 0 0 1 [[1]] [a] (Bound_Init 1) (Bound_Init 1) = Some (Inl OutOfBounds)"
  by (simp add: eval_simps Partition_loop.simps left_scan.simps right_scan.simps)

lemma Partition_AsIndented_reads_above_last:
  "Partition AsIndented 0 2 0 1 [[1]] [a] (Bound_Init 1) (Bound_Init 1) = Some (Inl OutOfBounds)"
  by (simp add: eval_simps Partition_loop.simps left_scan.simps right_scan.simps)

text \<open>
  Build calls the partition at the midpoint of the widest dimension of a node. In double
  arithmetic the midpoint of two different doubles need not lie above the smaller one
  (it is the smaller one when the two are neighbours and its mantissa is even, and an
  infinity when their sum overflows). \<open>midpoint_splits\<close> says of a point set that this
  does not happen between its coordinates; then, in the reading \<open>AsIndented\<close>, every
  partition returns with a point on each side, and the build returns a tree.
\<close>

definition midpoint_splits :: "Vector list \<Rightarrow> bool" where
  "midpoint_splits pts =
     (\<forall>p\<in>set pts. \<forall>q\<in>set pts. \<forall>d<length p.
        d < length q \<and> p ! d < q ! d \<longrightarrow>
          (let m = mid_double (Range_Init (p ! d) (q ! d)) in p ! d < m \<and> m \<le> q ! d))"

text \<open>Integer coordinates below \<open>2^52\<close> in magnitude are an example.\<close>

lemma midpoint_splits_small_ints:
  assumes "\<forall>p\<in>set pts. \<forall>x\<in>set p. \<exists>n::int. x = of_int n \<and> \<bar>n\<bar> < 2 ^ 52"
  shows "midpoint_splits pts"
  unfolding midpoint_splits_def Let_def
proof (intro ballI allI impI)
  fix p q d
  assume p: "p \<in> set pts" and q: "q \<in> set pts" and d: "d < length p"
    and h: "d < length q \<and> p ! d < q ! d"
  from assms p d obtain a :: int where a: "p ! d = of_int a" "\<bar>a\<bar> < 2 ^ 52"
    using nth_mem by blast
  from assms q h obtain b :: int where b: "q ! d = of_int b" "\<bar>b\<bar> < 2 ^ 52"
    using nth_mem by blast
  have ab: "a < b" using h a(1) b(1) by simp
  have m: "\<bar>b + a\<bar> < 2 ^ 53" using a(2) b(2) by simp
  have s: "round_double (of_int b + of_int a) = of_int (b + a)"
    using round_double_of_int [OF m] by simp
  have "\<bar>real_of_int (b + a)\<bar> < 2 ^ 53"
    using m by (metis of_int_abs of_int_less_iff of_int_numeral of_int_power)
  then have ninf: "\<bar>real_of_int (b + a)\<bar> \<noteq> DBL_INF" by (simp add: DBL_INF_def)
  have "round_double (of_int (b + a) / 2) = of_int (b + a) / 2"
    using round_double_exact [OF m, of "- 1"] by (simp add: power_int_minus field_simps)
  then have "mid_double (Range_Init (p ! d) (q ! d)) = of_int (b + a) / 2"
    using s ninf by (simp add: mid_double_def Range_Init_def a(1) b(1) Let_def del: of_int_add)
  then show "p ! d < mid_double (Range_Init (p ! d) (q ! d))
      \<and> mid_double (Range_Init (p ! d) (q ! d)) \<le> q ! d"
    using ab a(1) b(1) by simp
qed

lemma widest_loop_returns:
  assumes "\<forall>d\<in>set ds. d < length b"
  shows "\<exists>mw sd. widest_loop b ds acc = Inr (mw, sd)"
  using assms
proof (induction ds arbitrary: acc)
  case Nil
  then show ?case by (cases acc) simp
next
  case (Cons d ds)
  obtain mw0 sd0 where acc: "acc = (mw0, sd0)" by (cases acc)
  from Cons.prems have g: "get b d = Inr (b ! d)" by (simp add: get_def)
  from Cons.prems have "\<forall>d\<in>set ds. d < length b" by simp
  from Cons.IH [OF this] show ?case unfolding acc by (simp add: g)
qed

lemma FindBoundingBox_loop_returns:
  assumes "0 \<le> i" and "i + int n \<le> int (length pts)"
  shows "\<exists>b. FindBoundingBox_loop pts i n b0 = Inr b"
  using assms
proof (induction n arbitrary: i b0)
  case 0
  then show ?case by simp
next
  case (Suc n)
  then have "StartWrite pts i = Inr (pts ! nat i)" by (simp add: StartWrite_def in_range_def)
  moreover have "\<exists>b. FindBoundingBox_loop pts (i + 1) n (Bound_union_vector b0 (pts ! nat i)) = Inr b"
    using Suc.prems by (intro Suc.IH) simp_all
  ultimately show ?case by simp
qed

lemma finish_node_point_infos [simp]: "point_infos (finish_node l i s) = point_infos s"
  by (simp add: finish_node_def)

lemma Build_node_returns:
  assumes "node_pre s i" and "list_all finite_coords (points s)" and "0 < dim s"
    and "length (points s) \<le> length (point_infos s)" and "midpoint_splits (points s)"
  shows "\<exists>s'. Build_node AsIndented lg s i = Some (Inr s')
            \<and> length (point_infos s') = length (point_infos s)"
  using assms
proof (induction "nat (n_count (nodes s ! i))" arbitrary: s i rule: less_induct)
  case less
  let ?n = "nodes s ! i"
  let ?len = "length (nodes s)"
  let ?b = "n_begin ?n"
  let ?e = "n_end ?n"
  from less.prems(1) have i: "i < ?len" and wf: "\<forall>v\<in>set (points s). length v = dim s"
    and tight: "node_tight (dim s) (points s) ?n"
    by (simp_all add: node_pre_def list_all_iff)
  have b0: "0 \<le> ?b" and c1: "1 \<le> n_count ?n" and e: "?e \<le> int (length (points s))"
    and bnd: "n_bound ?n = bbox (dim s) (slice_set (points s) ?b ?e)"
    using tight by (simp_all add: node_tight_def)
  have ec: "?e = ?b + n_count ?n" by (simp add: n_end_def)
  have c0: "0 \<le> n_count ?n" using c1 by simp
  let ?S = "slice_set (points s) ?b ?e"
  have ne: "?S \<noteq> {}"
    using slice_set_mem [of ?b ?b ?e "points s"] c1 by (auto simp add: n_end_def)
  have sub: "?S \<subseteq> set (points s)"
    using b0 e by (auto simp add: slice_set_def nat_less_iff)
  have wff: "\<forall>v\<in>set (points s). length v = dim s \<and> finite_coords v"
    using wf less.prems(2) by (simp add: list_all_iff)
  show ?case
  proof (cases "n_count ?n > leaf_size s")
    case False
    then show ?thesis using Build_node_no_split [OF i, of AsIndented lg] by simp
  next
    case big: True
    have "\<forall>d\<in>set [0..<dim s]. d < length (n_bound ?n)" by (simp add: bnd)
    from widest_loop_returns [OF this] obtain mw sd where
      w: "widest_loop (n_bound ?n) [0..<dim s] (- 1, BIG_BAD_NUMBER) = Inr (mw, sd)"
      by blast
    have "0 \<le> width_double (n_bound ?n ! 0)"
      using bbox_width_nonneg [OF finite_slice_set ne less.prems(3)] bnd by simp
    moreover from widest_loop_result [OF w] less.prems(3)
    have "width_double (n_bound ?n ! 0) \<le> mw"
      "(mw, sd) = (- 1, BIG_BAD_NUMBER)
       \<or> sd \<in> set [0..<dim s] \<and> mw = width_double (n_bound ?n ! sd)"
      by auto
    ultimately have sd: "sd < dim s" and mwr: "mw = width_double (n_bound ?n ! sd)" by auto
    then have r: "get (n_bound ?n) sd = Inr (n_bound ?n ! sd)" by (simp add: get_def bnd)
    let ?r = "n_bound ?n ! sd"
    show ?thesis
    proof (cases "mw = 0")
      case True
      then show ?thesis using Build_node_no_split [OF i, of AsIndented lg] w r by auto
    next
      case mw: False
      have "lo ?r \<le> hi ?r" using bbox_lo_le_hi [OF finite_slice_set ne sd] bnd by simp
      moreover have "hi ?r - lo ?r \<noteq> 0"
        using mw mwr by (auto simp add: width_double_def)
      ultimately have lt: "lo ?r < hi ?r" by simp
      have "\<forall>v\<in>?S. length v = dim s \<and> finite_coords v" using wff sub by blast
      from bbox_attained [OF finite_slice_set ne sd this] bnd
      obtain p q where p: "p \<in> ?S" "p ! sd = lo ?r" and q: "q \<in> ?S" "q ! sd = hi ?r"
        by auto
      have R: "Range_Init (p ! sd) (q ! sd) = ?r" using p(2) q(2) by (simp add: Range_Init_def)
      have mem: "p \<in> set (points s)" "q \<in> set (points s)" "sd < length p"
        using p(1) q(1) sub wf sd by auto
      have "sd < length q \<and> p ! sd < q ! sd" using lt p(2) q(2) q(1) sub wf sd by auto
      with less.prems(5) mem
      have "p ! sd < mid_double (Range_Init (p ! sd) (q ! sd))
          \<and> mid_double (Range_Init (p ! sd) (q ! sd)) \<le> q ! sd"
        unfolding midpoint_splits_def Let_def by blast
      then have lohi: "lo ?r < mid_double ?r" "mid_double ?r \<le> hi ?r"
        unfolding R using p(2) q(2) by simp_all
      have E1: "\<exists>j. ?b \<le> j \<and> j < ?b + n_count ?n \<and> mid_double ?r \<le> points s ! nat j ! sd"
        using q lohi(2) by (auto simp add: slice_set_def ec)
      have E2: "\<exists>j. ?b \<le> j \<and> j < ?b + n_count ?n \<and> points s ! nat j ! sd < mid_double ?r"
        using p lohi(1) by (auto simp add: slice_set_def ec)
      from Partition_returns [OF wf sd b0 c0 e [unfolded ec] less.prems(4) E1 E2]
      obtain split pts' infos' lb rb where
        pok: "Partition AsIndented sd (mid_double ?r) ?b (n_count ?n) (points s) (point_infos s)
                 (Bound_Init (dim s)) (Bound_Init (dim s))
                 = Some (Inr (split, pts', infos', lb, rb))"
        and li': "length infos' = length (point_infos s)"
        by blast
      from Partition_spec [OF pok wf sd b0 c0]
      have P: "?b \<le> split" "split \<le> ?e"
        "\<forall>i. ?b \<le> i \<and> i < split \<longrightarrow> pts' ! nat i ! sd < mid_double ?r"
        "\<forall>i. split \<le> i \<and> i < ?e \<longrightarrow> mid_double ?r \<le> pts' ! nat i ! sd"
        "lb = bbox (dim s) (slice_set pts' ?b split)"
        "rb = bbox (dim s) (slice_set pts' split ?e)"
        "length pts' = length (points s)" "set pts' = set (points s)"
        "\<forall>j. \<not> (?b \<le> int j \<and> int j < ?e) \<longrightarrow> pts' ! j = points s ! j"
        "slice_set pts' ?b ?e = slice_set (points s) ?b ?e"
        by (simp_all add: ec)
      from split_nonempty [OF tight wff r lohi P(10) P(3) P(4)]
      have cl: "1 \<le> split - ?b" and cr: "1 \<le> ?e - split" by simp_all
      define L where "L = mk_node lb ?b (split - ?b)"
      define R where "R = mk_node rb split (?e - split)"
      define s1 where "s1 = s\<lparr>points := pts', point_infos := infos',
                nodes := nodes s @ [L, R]\<rparr>"
      have s1: "points s1 = pts'" "dim s1 = dim s" "leaf_size s1 = leaf_size s"
        "nodes s1 = nodes s @ [L, R]" "nodes s1 ! ?len = L" "point_infos s1 = infos'"
        by (simp_all add: s1_def)
      have Lf: "n_begin L = ?b" "n_count L = split - ?b" "n_end L = split" "n_bound L = lb"
        "n_child0 L = None" "n_child1 L = None"
        by (simp_all add: L_def mk_node_def n_end_def)
      have Rf: "n_begin R = split" "n_count R = ?e - split" "n_end R = ?e" "n_bound R = rb"
        "n_child0 R = None" "n_child1 R = None"
        by (simp_all add: R_def mk_node_def n_end_def)
      have wf1: "list_all (\<lambda>v. length v = dim s) pts'"
        using wf P(8) by (simp add: list_all_iff)
      have pre1: "node_pre s1 ?len"
        using wf1 b0 cl P(2,5,7) e by (simp add: node_pre_def s1 node_tight_def Lf)
      have m1: "nat (n_count (nodes s1 ! ?len)) < nat (n_count ?n)"
        using cl cr by (simp add: s1 Lf ec)
      have fin1: "list_all finite_coords (points s1)"
        using less.prems(2) P(8) by (simp add: s1 list_all_iff)
      have "length (points s1) \<le> length (point_infos s1)"
        using less.prems(4) P(7) li' by (simp add: s1)
      moreover have ms1: "midpoint_splits (points s1)"
        using less.prems(5) P(8) by (simp add: s1 midpoint_splits_def)
      ultimately obtain s2 where
        ok1: "Build_node AsIndented lg s1 ?len = Some (Inr s2)"
        and li2: "length (point_infos s2) = length infos'"
        using less.hyps [OF m1 pre1 fin1] less.prems(3) by (auto simp add: s1)
      from Build_node_invariant [OF ok1 pre1] have "node_post s1 ?len s2" by simp
      then obtain L' newL where
        q1: "dim s2 = dim s" "leaf_size s2 = leaf_size s"
          "length (points s2) = length pts'" "set (points s2) = set pts'"
          "\<forall>j. \<not> (?b \<le> int j \<and> int j < split) \<longrightarrow> points s2 ! j = pts' ! j"
          "slice_set (points s2) ?b split = slice_set pts' ?b split"
          "nodes s2 = (nodes s1)[?len := L'] @ newL" "same_range L' L"
        unfolding node_post_def s1(1,2,3,5) Lf by blast
      have n2: "nodes s2 = nodes s @ [L', R] @ newL"
        using q1(7) by (simp add: s1 list_update_append)
      then have n2R: "nodes s2 ! Suc ?len = R" "Suc ?len < length (nodes s2)"
        by (simp_all add: nth_append)
      have sl2: "slice_set (points s2) split ?e = slice_set pts' split ?e"
        using q1(5) P(1) b0 by (intro slice_set_cong) auto
      have pre2: "node_pre s2 (Suc ?len)"
        using n2R(2) wf1 q1(3,4) P(1,2,6,7) b0 cr e sl2
        by (simp add: node_pre_def n2R q1(1) node_tight_def Rf list_all_iff)
      have m2: "nat (n_count (nodes s2 ! Suc ?len)) < nat (n_count ?n)"
        using cl cr by (simp add: n2R Rf ec)
      have fin2: "list_all finite_coords (points s2)"
        using less.prems(2) P(8) q1(4) by (simp add: list_all_iff)
      have "length (points s2) \<le> length (point_infos s2)"
        using less.prems(4) P(7) li' li2 q1(3) by simp
      moreover have "midpoint_splits (points s2)"
        using less.prems(5) P(8) q1(4) by (simp add: midpoint_splits_def)
      ultimately obtain s3 where
        ok2: "Build_node AsIndented lg s2 (Suc ?len) = Some (Inr s3)"
        and li3: "length (point_infos s3) = length (point_infos s2)"
        using less.hyps [OF m2 pre2 fin2] less.prems(3) by (auto simp add: q1(1))
      have ne': "\<not> (split - ?b = 0 \<or> ?e - split = 0)" using cl cr by simp
      have "Build_node AsIndented lg s i = Some (Inr (s3\<lparr>nodes := (nodes s3)
              [i := set_child 1 (Suc ?len) (set_child 0 ?len (nodes s3 ! i))]\<rparr>))"
        unfolding Build_node_split [OF i big w r mw, of AsIndented lg] pok
        using ne' ok1 ok2 by (simp add: s1_def L_def R_def)
      then show ?thesis using li3 li2 li' by simp
    qed
  qed
qed

lemma Build_returns:
  assumes "pts \<noteq> []" and "hd pts \<noteq> []"
    and "list_all (\<lambda>v. length v = length (hd pts)) pts" and "list_all finite_coords pts"
    and "length pts \<le> length infos" and "midpoint_splits pts"
  shows "\<exists>s'. Build AsIndented lg ls pts infos = Some (Inr s')"
proof -
  let ?dim = "length (hd pts)"
  let ?N = "int (length pts)"
  have sw: "StartWrite pts 0 = Inr (hd pts)"
    using assms(1) by (simp add: StartWrite_def in_range_def hd_conv_nth)
  have wf: "\<forall>v\<in>set pts. length v = ?dim" using assms(3) by (simp add: list_all_iff)
  from FindBoundingBox_loop_returns [of 0 "length pts" pts "Bound_Init ?dim"]
  obtain b where fb: "FindBoundingBox pts 0 ?N (Bound_Init ?dim) = Inr b"
    by (auto simp add: FindBoundingBox_def)
  define s0 :: "'a KdTreeMidpointBuilder" where
    "s0 = \<lparr>points = pts, point_infos = infos,
            nodes = [(Node_Init 0 ?N Node_new)\<lparr>n_bound := b\<rparr>], leaf_size = ls, dim = ?dim\<rparr>"
  have bn: "Build AsIndented lg ls pts infos = Build_node AsIndented lg s0 0"
    using sw fb by (simp add: Build_def Let_def s0_def)
  have b: "b = bbox ?dim (slice_set pts 0 ?N)"
    using FindBoundingBox_loop_spec [OF fb [unfolded FindBoundingBox_def] wf, of "{}"]
    by (simp add: bbox_empty)
  have s0: "points s0 = pts" "dim s0 = ?dim" "nodes s0 = [(Node_Init 0 ?N Node_new)\<lparr>n_bound := b\<rparr>]"
    "point_infos s0 = infos"
    by (simp_all add: s0_def)
  have pre: "node_pre s0 0"
    using assms(1,3) b
    by (simp add: node_pre_def s0 node_tight_def Node_Init_def Node_new_def n_end_def Suc_leI)
  from Build_node_returns [OF pre, of lg] assms(2,4,5,6) show ?thesis
    unfolding bn by (auto simp add: s0)
qed


subsection \<open>Coinciding points\<close>

text \<open>
  A set of copies of one point has a bounding box of width zero in every dimension, so
  the build of any number of copies ends with the root alone, in both readings of the
  right scan; the leaf mark of the root is the value that the test of line 218 reads.
\<close>

lemma Bound_union_vector_idem:
  "Bound_union_vector (Bound_union_vector b p) p = Bound_union_vector b p"
  by (intro nth_equalityI)
     (simp_all add: Bound_union_vector_def Range_union_point_def Range_Init_def)

lemma FindBoundingBox_loop_replicate:
  assumes "int k + int n \<le> int m"
  shows "FindBoundingBox_loop (replicate m p) (int k) n b
     = Inr (if n = 0 then b else Bound_union_vector b p)"
  using assms
proof (induction n arbitrary: k b)
  case 0
  then show ?case by simp
next
  case (Suc n)
  have sw: "StartWrite (replicate m p) (int k) = Inr p"
    using Suc.prems by (simp add: StartWrite_def in_range_def)
  have "FindBoundingBox_loop (replicate m p) (int (Suc k)) n (Bound_union_vector b p)
     = Inr (if n = 0 then Bound_union_vector b p
            else Bound_union_vector (Bound_union_vector b p) p)"
    using Suc.prems by (intro Suc.IH) simp
  then show ?case using sw by (simp add: Bound_union_vector_idem add.commute)
qed

lemma Bound_union_vector_Init:
  assumes "finite_coords p"
  shows "Bound_union_vector (Bound_Init (length p)) p = map (\<lambda>x. Range_Init x x) p"
  using assms
  by (intro nth_equalityI)
     (auto simp add: Bound_union_vector_def Bound_Init_def Range_union_point_def
        Range_InitEmptySet_def Range_Init_def finite_coords_def list_all_length abs_le_iff)

lemma widest_loop_zero_width:
  assumes "\<forall>d\<in>set ds. d < length b \<and> width_double (b ! d) = 0" and "0 \<le> mw"
  shows "widest_loop b ds (mw, sd) = Inr (mw, sd)"
  using assms by (induction ds) (simp_all add: get_def)

lemma widest_loop_all_zero:
  assumes "b \<noteq> []" and "\<forall>d<length b. width_double (b ! d) = 0"
  shows "widest_loop b [0..<length b] (- 1, BIG_BAD_NUMBER) = Inr (0, 0)"
proof -
  from assms(1) have u: "[0..<length b] = 0 # [1..<length b]"
    by (simp add: upt_conv_Cons)
  have "widest_loop b [1..<length b] (0, 0) = Inr (0, 0)"
    using assms(2) by (intro widest_loop_zero_width) simp_all
  then show ?thesis using assms by (simp add: u get_def)
qed

lemma Build_identical_points:
  assumes "p \<noteq> []" and "finite_coords p"
  shows "Build rd leaf_garbage leaf_size_in (replicate (Suc n) p) infos =
     Some (Inr \<lparr>points = replicate (Suc n) p, point_infos = infos,
       nodes = [\<lparr>n_bound = map (\<lambda>x. Range_Init x x) p, n_begin = 0, n_count = int (Suc n),
                  n_child0 = None, n_child1 = None, n_leaf = leaf_garbage 0\<rparr>],
       leaf_size = leaf_size_in, dim = length p\<rparr>)"
proof -
  let ?b = "map (\<lambda>x. Range_Init x x) p"
  let ?root = "\<lparr>n_bound = ?b, n_begin = 0, n_count = int (Suc n),
                  n_child0 = None, n_child1 = None, n_leaf = False\<rparr>"
  let ?s = "\<lparr>points = replicate (Suc n) p, point_infos = infos,
       nodes = [?root], leaf_size = leaf_size_in, dim = length p\<rparr>"
  have sw: "StartWrite (replicate (Suc n) p) 0 = Inr p"
    by (simp add: StartWrite_def in_range_def)
  have "nat (int (Suc n)) = Suc n" by simp
  then have fb: "FindBoundingBox (replicate (Suc n) p) 0 (int (Suc n)) (Bound_Init (length p)) = Inr ?b"
    using FindBoundingBox_loop_replicate [of 0 "Suc n" "Suc n" p "Bound_Init (length p)"]
      Bound_union_vector_Init [OF assms(2)]
    unfolding FindBoundingBox_def by (simp del: FindBoundingBox_loop.simps replicate.simps of_nat_Suc)
  have b: "Build rd leaf_garbage leaf_size_in (replicate (Suc n) p) infos
      = Build_node rd leaf_garbage ?s 0"
    using sw fb by (simp add: Build_def Let_def Node_Init_def Node_new_def del: replicate.simps)
  have w: "widest_loop ?b [0..<length p] (- 1, BIG_BAD_NUMBER) = Inr (0, 0)"
    using widest_loop_all_zero [of ?b] assms(1) by (simp add: width_double_def Range_Init_def)
  have g: "get ?b 0 = Inr (?b ! 0)" using assms(1) by (simp add: get_def)
  have "Build_node rd leaf_garbage ?s 0 = Some (Inr (finish_node (leaf_garbage 0) 0 ?s))"
    using w g by (intro Build_node_no_split) auto
  then show ?thesis unfolding b by (simp add: finish_node_def set_leaf_def del: replicate.simps)
qed

section \<open>Claims about the N-body classes\<close>

subsection \<open>C1: the pruning predicate\<close>

text \<open>
  The squared distances of a point triple and their ranges between three nodes
  (\<^verbatim>\<open>core::gnp::TripleDistanceSq\<close>, \<^verbatim>\<open>TripleRangeDistanceSq\<close>, absent from the sources) are
  taken as three reals and three ranges.
\<close>

type_synonym TripleDistanceSq = "real \<times> real \<times> real"

type_synonym TripleRangeDistanceSq = "Range \<times> Range \<times> Range"

text \<open>
  C1 (as stated): for some global configuration, delta, pair of tree nodes and
  query-result state, \<^verbatim>\<open>CanSummarize\<close> returns true. The code returns false on every
  input, so no such input exists.
\<close>

theorem C1_CanSummarize_never_true:
  "\<not> (\<exists>(this::NbodySimulatorSummary)
         (global::(unit, TripleDistanceSq) NbodySimulatorGlobal)
         (delta::NbodySimulatorDelta) (qnode::nat) (rnode::nat)
         (query_results::NbodySimulatorResult).
         CanSummarize this global delta qnode rnode query_results)"
  by (simp add: CanSummarize_def)

text \<open>
  C1 (amended): for every summary, global configuration, delta, pair of tree nodes and
  query-result state, \<^verbatim>\<open>CanSummarize\<close> returns false.
\<close>

theorem C1_CanSummarize_returns_false:
  "CanSummarize this global delta qnode rnode query_results = False"
  by (simp add: CanSummarize_def)

subsection \<open>C2: the Delta of a node triple\<close>

text \<open>
  A point triple is drawn from three nodes when each of its squared distances lies in
  the range between the two nodes concerned. Its true contribution is what
  \<^verbatim>\<open>ApplyContribution\<close> writes for it. A Delta bounds the contribution when each of its
  three negative ranges contains the negative part and each of its three positive
  ranges contains the positive part.
\<close>

definition drawn_from :: "TripleRangeDistanceSq \<Rightarrow> TripleDistanceSq \<Rightarrow> bool" where
  "drawn_from bounds t =
     (case bounds of (r01, r02, r12) \<Rightarrow> case t of (d01, d02, d12) \<Rightarrow>
        Range_Contains r01 d01 \<and> Range_Contains r02 d02 \<and> Range_Contains r12 d12)"

definition triple_contribution ::
  "('table, 'dsq) NbodySimulatorGlobal \<Rightarrow> 'dsq \<Rightarrow> NbodySimulatorPostponed" where
  "triple_contribution global t = hd (ApplyContribution global t [Postponed_SetZero])"

definition Delta_bounds_triple :: "NbodySimulatorDelta \<Rightarrow> NbodySimulatorPostponed \<Rightarrow> bool" where
  "Delta_bounds_triple d p =
     (list_all (\<lambda>r. Range_subset (p_negative_potential p) r) (d_negative_potential d)
      \<and> list_all (\<lambda>r. Range_subset (p_positive_potential p) r) (d_positive_potential d))"

definition unit_potential_global :: "(unit, TripleDistanceSq) NbodySimulatorGlobal" where
  "unit_potential_global =
     \<lparr>relative_error = 1 / 10, probability = 1, table = (), EvalUnnormOnSq = (\<lambda>_. 1)\<rparr>"

lemma NbodySimulatorDelta_new_eq:
  "NbodySimulatorDelta_new =
     \<lparr>d_negative_potential = replicate 3 (Range_Init 0 0),
      d_positive_potential = replicate 3 (Range_Init 0 0),
      d_pruned = replicate 3 0, d_used_error = replicate 3 0\<rparr>"
  by (simp add: NbodySimulatorDelta_new_def Delta_SetZero_def numeral_3_eq_3)

text \<open>
  C2 (as stated): the Delta that \<^verbatim>\<open>DeterministicCompute\<close> leaves bounds the contribution
  of every point triple drawn from the three nodes. With a potential of value 1 and three
  nodes at squared distances 1, the triple \<open>(1, 1, 1)\<close> is drawn from the nodes and
  contributes \<open>[1, 1]\<close> to the positive range, while the freshly constructed Delta still
  holds \<open>[0, 0]\<close> after the call.
\<close>

theorem C2_DeterministicCompute_not_a_bound:
  "drawn_from (Range_Init 1 1, Range_Init 1 1, Range_Init 1 1) (1, 1, 1)
   \<and> \<not> Delta_bounds_triple
        (DeterministicCompute () unit_potential_global
           (Range_Init 1 1, Range_Init 1 1, Range_Init 1 1) NbodySimulatorDelta_new)
        (triple_contribution unit_potential_global (1, 1, 1))"
  by (simp add: NbodySimulatorDelta_new_eq drawn_from_def Range_Contains_def Range_Init_def
      DeterministicCompute_def Delta_bounds_triple_def triple_contribution_def
      ApplyContribution_def unit_potential_global_def Postponed_SetZero_def Range_subset_def
      numeral_3_eq_3)

text \<open>
  C2 (amended): for every metric, global context and triple of node bounds,
  \<^verbatim>\<open>DeterministicCompute\<close> leaves the Delta as it was; called on a freshly constructed
  Delta it leaves three negative and three positive ranges \<open>[0, 0]\<close> and zero pruned and
  used-error entries, whatever the bounds and the potential are.
\<close>

theorem C2_DeterministicCompute_leaves_Delta:
  "DeterministicCompute metric global triple_range_distance_sq delta = delta
   \<and> DeterministicCompute metric global triple_range_distance_sq NbodySimulatorDelta_new =
       \<lparr>d_negative_potential = [Range_Init 0 0, Range_Init 0 0, Range_Init 0 0],
        d_positive_potential = [Range_Init 0 0, Range_Init 0 0, Range_Init 0 0],
        d_pruned = [0, 0, 0], d_used_error = [0, 0, 0]\<rparr>"
  by (simp add: DeterministicCompute_def NbodySimulatorDelta_new_eq numeral_3_eq_3)

subsection \<open>C6: re-accumulating a Summary\<close>

definition prior_summary :: NbodySimulatorSummary where
  "prior_summary =
     \<lparr>s_negative_potential = Range_Init (- 10) 0, s_positive_potential = Range_Init 0 10,
      s_pruned = 4, s_used_error = 0\<rparr>"

definition child_summary :: NbodySimulatorSummary where
  "child_summary =
     \<lparr>s_negative_potential = Range_Init (- 2) (- 1), s_positive_potential = Range_Init 1 2,
      s_pruned = 5, s_used_error = 0\<rparr>"

lemma Accumulate_ranges:
  "s_negative_potential (Accumulate this summary_in postponed_in) =
     Range_union (s_negative_potential this)
       (Range_plus (s_negative_potential summary_in) (p_negative_potential postponed_in))"
  "s_positive_potential (Accumulate this summary_in postponed_in) =
     Range_plus (s_positive_potential summary_in) (p_positive_potential postponed_in)"
  by (simp_all add: Accumulate_def)

text \<open>
  C6: \<^verbatim>\<open>Accumulate(summary_in, postponed_in)\<close> sets both the negative and the positive
  range to the union of its prior value with the sum of the child's and the postponed's
  range. At a prior positive range \<open>[0, 10]\<close>, a child range \<open>[1, 2]\<close> and a zero
  Postponed the code leaves the positive range \<open>[1, 2]\<close>, where the union is \<open>[0, 10]\<close>;
  the negative range of the same call is the union.
\<close>

theorem C6_Accumulate_positive_overwritten:
  "s_positive_potential (Accumulate prior_summary child_summary Postponed_SetZero)
     = Range_Init 1 2
   \<and> Range_union (s_positive_potential prior_summary)
        (Range_plus (s_positive_potential child_summary)
           (p_positive_potential Postponed_SetZero))
     = Range_Init 0 10
   \<and> s_negative_potential (Accumulate prior_summary child_summary Postponed_SetZero)
     = Range_Init (- 10) 0
   \<and> Range_union (s_negative_potential prior_summary)
        (Range_plus (s_negative_potential child_summary)
           (p_negative_potential Postponed_SetZero))
     = Range_Init (- 10) 0"
  by (simp add: Accumulate_def prior_summary_def child_summary_def Postponed_SetZero_def
      Range_union_def Range_plus_def Range_Init_def)

subsection \<open>C10: the final estimate of a query point\<close>

text \<open>
  C10: for every in-range query index \<open>q\<close>, \<^verbatim>\<open>PostProcess\<close> sets \<^verbatim>\<open>potential_e_[q]\<close> to the
  midpoint of the negative range of \<open>q\<close> plus the midpoint of its positive range, and
  leaves every other entry of \<^verbatim>\<open>potential_e_\<close> and every other field of the Result as it
  was.
\<close>

theorem C10_PostProcess_sets_midpoint_sum:
  assumes "in_range (r_negative_potential this) q_index"
      and "in_range (r_positive_potential this) q_index"
      and "in_range (r_potential_e this) q_index"
  shows "\<exists>r'. PostProcess metric q_index global this = Inr r'
     \<and> r_potential_e r' ! nat q_index =
         mid (r_negative_potential this ! nat q_index)
         + mid (r_positive_potential this ! nat q_index)
     \<and> length (r_potential_e r') = length (r_potential_e this)
     \<and> (\<forall>j. j \<noteq> nat q_index \<longrightarrow> r_potential_e r' ! j = r_potential_e this ! j)
     \<and> r_negative_potential r' = r_negative_potential this
     \<and> r_positive_potential r' = r_positive_potential this
     \<and> r_pruned r' = r_pruned this
     \<and> r_used_error r' = r_used_error this"
  using assms by (simp add: PostProcess_def in_range_def nat_less_iff)

definition two_point_result :: NbodySimulatorResult where
  "two_point_result =
     \<lparr>r_negative_potential = [Range_Init (- 4) (- 2), Range_Init (- 3) (- 1)],
      r_positive_potential = [Range_Init 0 2, Range_Init 5 7],
      r_potential_e = [0, 0], r_pruned = [8, 9], r_used_error = [0, 0]\<rparr>"

theorem C10_PostProcess_witness:
  "in_range (r_negative_potential two_point_result) 1
   \<and> in_range (r_positive_potential two_point_result) 1
   \<and> in_range (r_potential_e two_point_result) 1
   \<and> (\<exists>r'. PostProcess () 1 () two_point_result = Inr r' \<and> r_potential_e r' = [0, 4]
          \<and> r_pruned r' = [8, 9])"
proof -
  have h: "in_range (r_negative_potential two_point_result) 1"
    "in_range (r_positive_potential two_point_result) 1"
    "in_range (r_potential_e two_point_result) 1"
    by (simp_all add: in_range_def two_point_result_def)
  from C10_PostProcess_sets_midpoint_sum [OF h, of "()" "()"] obtain r' where
    r: "PostProcess () 1 () two_point_result = Inr r'"
       "r_pruned r' = r_pruned two_point_result"
    by blast
  have "r_potential_e r' = [0, 4]"
    using r(1)
    by (auto simp add: PostProcess_def two_point_result_def in_range_def mid_def Range_Init_def)
  with h r show ?thesis
    by (simp add: two_point_result_def)
qed

section \<open>Claims about the kd-tree builder\<close>

text \<open>A point set of four points in the plane and the tree the builder makes of it.\<close>

definition four_points :: "Vector list" where
  "four_points = [[3, 0], [1, 5], [2, 2], [0, 1]]"

definition four_tree :: "string KdTreeMidpointBuilder" where
  "four_tree =
     \<lparr>points = [[0, 1], [3, 0], [2, 2], [1, 5]],
      point_infos = [''d'', ''a'', ''c'', ''b''],
      nodes =
        [\<lparr>n_bound = [\<lparr>lo = 0, hi = 3\<rparr>, \<lparr>lo = 0, hi = 5\<rparr>], n_begin = 0, n_count = 4,
            n_child0 = Some 1, n_child1 = Some 2, n_leaf = False\<rparr>,
         \<lparr>n_bound = [\<lparr>lo = 0, hi = 3\<rparr>, \<lparr>lo = 0, hi = 2\<rparr>], n_begin = 0, n_count = 3,
            n_child0 = Some 3, n_child1 = Some 4, n_leaf = False\<rparr>,
         \<lparr>n_bound = [\<lparr>lo = 1, hi = 1\<rparr>, \<lparr>lo = 5, hi = 5\<rparr>], n_begin = 3, n_count = 1,
            n_child0 = None, n_child1 = None, n_leaf = True\<rparr>,
         \<lparr>n_bound = [\<lparr>lo = 0, hi = 0\<rparr>, \<lparr>lo = 1, hi = 1\<rparr>], n_begin = 0, n_count = 1,
            n_child0 = None, n_child1 = None, n_leaf = True\<rparr>,
         \<lparr>n_bound = [\<lparr>lo = 2, hi = 3\<rparr>, \<lparr>lo = 0, hi = 2\<rparr>], n_begin = 1, n_count = 2,
            n_child0 = Some 5, n_child1 = Some 6, n_leaf = False\<rparr>,
         \<lparr>n_bound = [\<lparr>lo = 3, hi = 3\<rparr>, \<lparr>lo = 0, hi = 0\<rparr>], n_begin = 1, n_count = 1,
            n_child0 = None, n_child1 = None, n_leaf = True\<rparr>,
         \<lparr>n_bound = [\<lparr>lo = 2, hi = 2\<rparr>, \<lparr>lo = 2, hi = 2\<rparr>], n_begin = 2, n_count = 1,
            n_child0 = None, n_child1 = None, n_leaf = True\<rparr>],
      leaf_size = 1, dim = 2\<rparr>"

lemma Build_four_points:
  "Build AsIndented (\<lambda>_. True) 1 four_points [''a'', ''b'', ''c'', ''d''] = Some (Inr four_tree)"
  by (simp add: four_points_def four_tree_def eval_simps left_scan.simps right_scan.simps
      Partition_loop.simps Build_node.simps)

lemma four_points_wf: "list_all (\<lambda>v. length v = length (hd four_points)) four_points"
  by (simp add: four_points_def)

subsection \<open>C3: termination of the two-pointer scan\<close>

text \<open>
  C3: for every valid input (\<open>0 \<le> first\<close>, \<open>count \<ge> 1\<close>, \<open>split_dim < dim\<close>) the scan of
  \<^verbatim>\<open>Partition_\<close> terminates and the function returns the crossing index. As the source is
  written (reading \<open>AsWritten\<close>), the call on the two points \<open>[0]\<close> and \<open>[1]\<close>, split at
  \<open>1/2\<close> in dimension 0, does not return: after the left scan the loop of line 114
  reads the point at \<open>right\<close> for ever. (Read with the block of the right scan, a call on
  a range that holds a point below the split value and a point at or above it returns:
  \<open>Partition_returns\<close>.)
\<close>

theorem C3_Partition_as_written_diverges:
  "Partition AsWritten 0 (1 / 2) 0 2 [[0], [1]] [''a'', ''b''] (Bound_Init 1) (Bound_Init 1) = None"
  by (simp add: Partition_def left_scan.simps StartWrite_def get_def in_range_def
      right_scan_as_written_in_range)

subsection \<open>C4: the result of the partition\<close>

text \<open>
  C4: every valid call of \<^verbatim>\<open>Partition_\<close> returns an index \<open>i\<close> with
  \<open>first \<le> i \<le> first + count\<close>, the points below the split value before \<open>i\<close>, the others
  from \<open>i\<close> on, and the points with their payloads permuted. As the source is written the
  call on three points of the plane, split at 2 in dimension 1, returns no index, and no
  call returns one. (Read with the block of the right scan, a call that returns has the
  claimed result: \<open>Partition_AsIndented_correct\<close>.)
\<close>

theorem C4_Partition_as_written_returns_no_index:
  "Partition AsWritten 1 2 0 3 [[0, 1], [5, 3], [2, 0]] [''a'', ''b'', ''c'']
     (Bound_Init 2) (Bound_Init 2) = None
   \<and> (\<forall>r. Partition AsWritten d sv first count' pts infos lb rb \<noteq> Some (Inr r))"
  using Partition_AsWritten_no_index [of d sv first count' pts infos lb rb]
  by (simp add: Partition_def left_scan.simps StartWrite_def get_def in_range_def
      right_scan_as_written_in_range)

subsection \<open>C5: a node of coinciding points\<close>

text \<open>
  C5: a node with more points than the leaf threshold whose widest dimension has width
  zero is made a leaf, and the builder does not recurse. On three copies of the point
  \<open>(3, 0)\<close> with leaf size 1, in a run where the uninitialised \<^verbatim>\<open>leaf\<close> reads false, the
  build returns the root alone, without children and without the leaf mark:
  \<^verbatim>\<open>set_leaf()\<close> is not executed. (For any number of copies of any point the build
  returns the root alone, marked a leaf exactly when \<^verbatim>\<open>leaf\<close> reads true:
  \<open>Build_identical_points\<close>.)
\<close>

theorem C5_degenerate_node_not_marked_leaf:
  "Build rd (\<lambda>_. False) 1 [[3, 0], [3, 0], [3, 0]] [''a'', ''b'', ''c''] =
     Some (Inr \<lparr>points = [[3, 0], [3, 0], [3, 0]], point_infos = [''a'', ''b'', ''c''],
       nodes = [\<lparr>n_bound = [\<lparr>lo = 3, hi = 3\<rparr>, \<lparr>lo = 0, hi = 0\<rparr>], n_begin = 0, n_count = 3,
                  n_child0 = None, n_child1 = None, n_leaf = False\<rparr>],
       leaf_size = 1, dim = 2\<rparr>)"
  by (simp add: eval_simps Build_node.simps)

subsection \<open>C7: bound containment\<close>

text \<open>
  C7: in every tree the builder produces from a dimension-consistent point set, in either
  reading of the scan and whatever the uninitialised \<^verbatim>\<open>leaf\<close> holds, every point whose
  index lies in the range of a node lies within the bound of that node in every
  dimension. (In the reading \<open>AsIndented\<close> the builder produces a tree from every non-empty
  point set of finite coordinates whose midpoints separate: \<open>Build_returns\<close>.)
\<close>

theorem C7_bound_containment:
  assumes "Build rd leaf_garbage leaf_size_in pts infos = Some (Inr s')"
    and "list_all (\<lambda>v. length v = length (hd pts)) pts"
  shows "\<forall>m\<in>set (nodes s'). \<forall>i. n_begin m \<le> i \<and> i < n_end m
           \<longrightarrow> in_range (points s') i \<and> Bound_Contains (n_bound m) (points s' ! nat i)"
proof (intro ballI allI impI)
  fix m i assume m: "m \<in> set (nodes s')" and i: "n_begin m \<le> i \<and> i < n_end m"
  from Build_invariant [OF assms] have t: "tree_ok pts s'" and d: "dim s' = length (hd pts)"
    by simp_all
  from t m have m0: "0 \<le> n_begin m" "n_end m \<le> int (length pts)"
    "n_bound m = bbox (dim s') (slice_set (points s') (n_begin m) (n_end m))"
    and len: "length (points s') = length pts" and st: "set (points s') = set pts"
    by (simp_all add: tree_ok_def list_all_iff node_tight_def)
  have r: "in_range (points s') i" using i m0 len by (simp add: in_range_def)
  then have "points s' ! nat i \<in> set pts" using st in_range_nth_mem by blast
  then have "length (points s' ! nat i) = dim s'" using assms(2) d by (simp add: list_all_iff)
  moreover have "points s' ! nat i \<in> slice_set (points s') (n_begin m) (n_end m)"
    using i by (simp add: slice_set_mem)
  ultimately have "Bound_Contains (n_bound m) (points s' ! nat i)"
    unfolding m0(3) by (intro bbox_Contains) simp_all
  with r show "in_range (points s') i \<and> Bound_Contains (n_bound m) (points s' ! nat i)" ..
qed

theorem C7_bound_containment_witness:
  "Build AsIndented (\<lambda>_. True) 1 four_points [''a'', ''b'', ''c'', ''d''] = Some (Inr four_tree)
   \<and> list_all (\<lambda>v. length v = length (hd four_points)) four_points
   \<and> Bound_Contains (n_bound (nodes four_tree ! 4)) (points four_tree ! 1)
   \<and> Bound_Contains (n_bound (nodes four_tree ! 4)) (points four_tree ! 2)
   \<and> Bound_Contains (n_bound (nodes four_tree ! 1)) (points four_tree ! 0)"
proof -
  note c = C7_bound_containment [OF Build_four_points four_points_wf, rule_format]
  have m: "nodes four_tree ! 4 \<in> set (nodes four_tree)" "nodes four_tree ! 1 \<in> set (nodes four_tree)"
    by (simp_all add: four_tree_def)
  have "n_begin (nodes four_tree ! 4) \<le> 1 \<and> 1 < n_end (nodes four_tree ! 4)"
    "n_begin (nodes four_tree ! 4) \<le> 2 \<and> 2 < n_end (nodes four_tree ! 4)"
    "n_begin (nodes four_tree ! 1) \<le> 0 \<and> 0 < n_end (nodes four_tree ! 1)"
    by (simp_all add: four_tree_def n_end_def)
  from c [OF m(1) this(1)] c [OF m(1) this(2)] c [OF m(2) this(3)]
  show ?thesis using Build_four_points four_points_wf by simp
qed

subsection \<open>C8: partition conservation\<close>

text \<open>
  C8: in every tree the builder produces, a node with two children \<open>l\<close> and \<open>r\<close> has a split
  column strictly inside its range such that \<open>l\<close> covers \<open>(begin, split_col - begin)\<close> and
  \<open>r\<close> covers \<open>(split_col, end - split_col)\<close>: the ranges of the children are contiguous and
  disjoint, their union is the range of the node, and the counts add up. A node has both
  children or none, and the counts of the nodes without children add up to the number of
  points.
\<close>

theorem C8_partition_conservation:
  assumes "Build rd leaf_garbage leaf_size_in pts infos = Some (Inr s')"
    and "list_all (\<lambda>v. length v = length (hd pts)) pts"
  shows "(\<forall>m\<in>set (nodes s'). \<forall>l r. n_child0 m = Some l \<and> n_child1 m = Some r \<longrightarrow>
            l < length (nodes s') \<and> r < length (nodes s')
            \<and> (\<exists>split_col. n_begin m < split_col \<and> split_col < n_end m
                  \<and> n_begin (nodes s' ! l) = n_begin m
                  \<and> n_count (nodes s' ! l) = split_col - n_begin m
                  \<and> n_begin (nodes s' ! r) = split_col
                  \<and> n_count (nodes s' ! r) = n_end m - split_col)
            \<and> n_count m = n_count (nodes s' ! l) + n_count (nodes s' ! r))
       \<and> (\<forall>m\<in>set (nodes s'). (n_child0 m = None) = (n_child1 m = None))
       \<and> leaf_total (nodes s') = int (length pts)"
proof -
  from Build_invariant [OF assms] have t: "tree_ok pts s'" by simp
  then have ch: "\<forall>m\<in>set (nodes s'). children_ok (nodes s') m"
    and lt: "leaf_total (nodes s') = int (length pts)"
    by (simp_all add: tree_ok_def list_all_iff)
  have "l < length (nodes s') \<and> r < length (nodes s')
            \<and> (\<exists>split_col. n_begin m < split_col \<and> split_col < n_end m
                  \<and> n_begin (nodes s' ! l) = n_begin m
                  \<and> n_count (nodes s' ! l) = split_col - n_begin m
                  \<and> n_begin (nodes s' ! r) = split_col
                  \<and> n_count (nodes s' ! r) = n_end m - split_col)
            \<and> n_count m = n_count (nodes s' ! l) + n_count (nodes s' ! r)"
    if "m \<in> set (nodes s')" "n_child0 m = Some l \<and> n_child1 m = Some r" for m l r
  proof -
    from ch that have c: "l < length (nodes s')" "r < length (nodes s')"
      "n_begin (nodes s' ! l) = n_begin m" "n_end (nodes s' ! l) = n_begin (nodes s' ! r)"
      "n_end (nodes s' ! r) = n_end m" "1 \<le> n_count (nodes s' ! l)" "1 \<le> n_count (nodes s' ! r)"
      by (auto simp add: children_ok_def)
    then show ?thesis
      by (intro conjI exI [of _ "n_begin (nodes s' ! r)"]) (simp_all add: n_end_def)
  qed
  moreover have "(n_child0 m = None) = (n_child1 m = None)" if "m \<in> set (nodes s')" for m
    using ch that by (auto simp add: children_ok_def split: option.splits)
  ultimately show ?thesis using lt by blast
qed

theorem C8_partition_conservation_witness:
  "Build AsIndented (\<lambda>_. True) 1 four_points [''a'', ''b'', ''c'', ''d''] = Some (Inr four_tree)
   \<and> list_all (\<lambda>v. length v = length (hd four_points)) four_points
   \<and> n_count (nodes four_tree ! 0)
       = n_count (nodes four_tree ! 1) + n_count (nodes four_tree ! 2)
   \<and> leaf_total (nodes four_tree) = 4"
proof -
  note c = C8_partition_conservation [OF Build_four_points four_points_wf]
  have "nodes four_tree ! 0 \<in> set (nodes four_tree)"
    "n_child0 (nodes four_tree ! 0) = Some 1 \<and> n_child1 (nodes four_tree ! 0) = Some 2"
    by (simp_all add: four_tree_def)
  with c have "n_count (nodes four_tree ! 0)
       = n_count (nodes four_tree ! 1) + n_count (nodes four_tree ! 2)"
    by blast
  moreover from c have "leaf_total (nodes four_tree) = 4" by (simp add: four_points_def)
  ultimately show ?thesis using Build_four_points four_points_wf by simp
qed

subsection \<open>C9: the assertion after the partition\<close>

text \<open>
  C9: a split of a node whose widest dimension has positive width, at the midpoint of
  that dimension, leaves two non-empty sides, so the assertion of line 199 never fails.
  On the three one-dimensional points 0, 10 and \<open>10 + 2^(-49)\<close> with leaf size 1, the
  root is split at \<open>5 + 2^(-50)\<close> into the point 0 and the two others. These two are
  neighbouring doubles: the range between them has the positive width \<open>2^(-49)\<close>, and
  its midpoint in double arithmetic is 10, its lower end. Both points are at or above
  it, the left side of the split is empty, and the assertion fails. This is the reading
  \<open>AsIndented\<close>; as the source is written, the partition of the root does not return and
  there are no sides. (A split value above the lower end and not above the upper end
  does leave a point on each side: \<open>split_nonempty\<close>.)
\<close>

theorem C9_assertion_fails_at_rounded_midpoint:
  "width_double \<lparr>lo = 10, hi = 10 + 1 / 2 ^ 49\<rparr> = 1 / 2 ^ 49
   \<and> mid_double \<lparr>lo = 10, hi = 10 + 1 / 2 ^ 49\<rparr> = 10
   \<and> Build AsIndented leaf_garbage 1 [[0], [10], [10 + 1 / 2 ^ 49]] [''a'', ''b'', ''c'']
       = Some (Inl AssertionFailed)
   \<and> Build AsWritten leaf_garbage 1 [[0], [10], [10 + 1 / 2 ^ 49]] [''a'', ''b'', ''c'']
       = None"
  by (simp add: eval_simps round_double_eval left_scan.simps right_scan.simps
      Partition_loop.simps Build_node.simps right_scan_as_written_in_range)

end
